theory Spec2Isabelle
  imports Main
begin

section \<open>Python objects, errors and the store\<close>

text \<open>
  The module \<^verbatim>\<open>plane.py\<close> keeps a grid of bits as bit rows (\<^verbatim>\<open>bitarray\<close> objects).
  A one-dimensional plane holds one row; any other plane holds a numpy array of
  \<^verbatim>\<open>dtype=object\<close> whose cells refer to rows. Rows and array cells live in a store,
  so that two handles on the same cells (a plane and a view of it) are visible as such.

  Exceptions are values of \<open>error\<close>; a call that may raise returns \<open>error + 'a\<close>.
  Python integers are \<open>int\<close>. A bit is a \<open>bool\<close>.

  Index expressions covered: a tuple of integers, a single integer, a list of integers
  and a slice (the coordinate forms of the specification). Tuples that contain slices,
  arrays used as indices and the ellipsis are outside this development. Exhaustion of
  memory is not modelled: an allocation within the limits of the libraries succeeds.
\<close>

datatype error = IndexError | TypeError | AttributeError | ValueError

type_synonym bitarray = "bool list"

type_synonym ref = nat

text \<open>
  A numpy array of row references, as reached by integer indexing from a C-contiguous
  array: the cells \<open>off, off + 1, ...\<close> of the store, read in row-major order with the
  dimensions \<open>dims\<close>. Indexing with integers yields such a window again (a numpy view).
\<close>

record ndarray =
  off :: nat
  dims :: "int list"

text \<open>
  The view that a slice along the first axis yields: of the blocks of cells that make up
  the first axis of an array, every \<open>skip + 1\<close>-th one is taken, \<open>sdims\<close> are the dimensions
  of the view (the first is the number of blocks taken), \<open>base\<close> is the lowest address
  among them, and \<open>reversed\<close> tells that the view runs through them from the highest
  address down (a negative step).
\<close>

record strided =
  base :: nat
  sdims :: "int list"
  skip :: nat
  reversed :: bool

datatype obj = Bit bool | Row ref | Arr ndarray | Str strided

record heap =
  rows :: "ref \<Rightarrow> bitarray"
  nrows :: nat
  cells :: "nat \<Rightarrow> ref"
  ncells :: nat

record plane =
  grid :: obj
  shape :: "int list"
  N :: int

datatype pyval = Obj obj | View plane | Objs "obj list"

datatype index = Tup "int list" | Scalar int | Lst "int list" | Slc "int option" "int option" "int option"

definition nd_size :: "ndarray \<Rightarrow> nat" where
  "nd_size a = nat (prod_list (dims a))"

definition new_bitarray :: "bitarray \<Rightarrow> heap \<Rightarrow> ref \<times> heap" where
  "new_bitarray b h = (nrows h, h\<lparr>rows := (rows h)(nrows h := b), nrows := Suc (nrows h)\<rparr>)"

text \<open>
  The limits of numpy: an array has at most \<^verbatim>\<open>NPY_MAXDIMS\<close> dimensions, and sizes are
  counted in the signed 64-bit type \<^verbatim>\<open>npy_intp\<close>.
\<close>

definition npy_maxdims :: nat where
  "npy_maxdims = 32"

definition npy_max_intp :: int where
  "npy_max_intp = 2 ^ 63 - 1"

text \<open>
  \<^verbatim>\<open>np.empty(dims, dtype=object)\<close>. ValueError is raised for more than \<^verbatim>\<open>NPY_MAXDIMS\<close>
  dimensions, for a negative dimension, and when the size in bytes overflows: the
  dimensions other than 0 are multiplied, starting from the 8 bytes of an object pointer,
  and the result must fit \<^verbatim>\<open>npy_intp\<close> (a dimension that does not fit it by itself is
  rejected by the same test). The fresh cells are assigned by the caller's loop before
  anything reads them.
\<close>

definition np_empty :: "int list \<Rightarrow> heap \<Rightarrow> error + (ndarray \<times> heap)" where
  "np_empty ds h =
     (if npy_maxdims < length ds then Inl ValueError
      else if list_ex (\<lambda>d. d < 0) ds then Inl ValueError
      else if npy_max_intp div 8 < prod_list (filter (\<lambda>d. d \<noteq> 0) ds) then Inl ValueError
      else Inr (\<lparr>off = ncells h, dims = ds\<rparr>, h\<lparr>ncells := ncells h + nat (prod_list ds)\<rparr>))"

text \<open>The dimensions that \<^verbatim>\<open>np.empty\<close> accepts for an array of objects.\<close>

definition np_allocatable :: "int list \<Rightarrow> bool" where
  "np_allocatable ds =
     (length ds \<le> npy_maxdims \<and> list_all (\<lambda>d. 0 \<le> d) ds
      \<and> prod_list (filter (\<lambda>d. d \<noteq> 0) ds) \<le> npy_max_intp div 8)"

definition flat_get :: "heap \<Rightarrow> ndarray \<Rightarrow> nat \<Rightarrow> ref" where
  "flat_get h a i = cells h (off a + i)"

definition flat_set :: "ndarray \<Rightarrow> nat \<Rightarrow> ref \<Rightarrow> heap \<Rightarrow> heap" where
  "flat_set a i r h = h\<lparr>cells := (cells h)(off a + i := r)\<rparr>"

text \<open>
  Addresses in a sliced view: the number of blocks, the size of a block, the address of
  block \<open>k\<close>, the address of cell \<open>i\<close> of the view in row-major order
  (\<^verbatim>\<open>flat[i]\<close>), and the number of cells (\<^verbatim>\<open>size\<close>).
\<close>

definition str_count :: "strided \<Rightarrow> nat" where
  "str_count s = (case sdims s of [] \<Rightarrow> 0 | d # ds \<Rightarrow> nat d)"

definition str_blk :: "strided \<Rightarrow> nat" where
  "str_blk s = nat (prod_list (tl (sdims s)))"

definition str_block :: "strided \<Rightarrow> nat \<Rightarrow> nat" where
  "str_block s k =
     base s + (if reversed s then str_count s - 1 - k else k) * (Suc (skip s) * str_blk s)"

definition str_flat :: "strided \<Rightarrow> nat \<Rightarrow> nat" where
  "str_flat s i = str_block s (i div str_blk s) + i mod str_blk s"

definition str_size :: "strided \<Rightarrow> nat" where
  "str_size s = str_count s * str_blk s"

definition str_get :: "heap \<Rightarrow> strided \<Rightarrow> nat \<Rightarrow> ref" where
  "str_get h s i = cells h (str_flat s i)"

definition str_set :: "strided \<Rightarrow> nat \<Rightarrow> ref \<Rightarrow> heap \<Rightarrow> heap" where
  "str_set s i r h = h\<lparr>cells := (cells h)(str_flat s i := r)\<rparr>"

text \<open>A contiguous array seen as a sliced view that takes every block.\<close>

definition str_of_arr :: "ndarray \<Rightarrow> strided" where
  "str_of_arr a = \<lparr>base = off a, sdims = dims a, skip = 0, reversed = False\<rparr>"

section \<open>Indexing of the library objects\<close>

text \<open>
  Python's rule for one integer index into a sequence of length \<open>n\<close>: \<open>0 \<le> i < n\<close> is
  taken as it is, \<open>-n \<le> i < 0\<close> counts from the end, anything else raises IndexError.
\<close>

definition norm_index :: "int \<Rightarrow> int \<Rightarrow> error + nat" where
  "norm_index n i =
     (if 0 \<le> i \<and> i < n then Inr (nat i)
      else if - n \<le> i \<and> i < 0 then Inr (nat (i + n))
      else Inl IndexError)"

definition bitarray_getitem :: "bitarray \<Rightarrow> int \<Rightarrow> error + bool" where
  "bitarray_getitem b i =
     (case norm_index (int (length b)) i of Inl e \<Rightarrow> Inl e | Inr k \<Rightarrow> Inr (b ! k))"

text \<open>
  A tuple of integers against the dimensions of an array: the offset of the addressed
  cell (or block of cells) and the dimensions that remain. More indices than dimensions
  raise IndexError.
\<close>

fun nd_resolve :: "int list \<Rightarrow> int list \<Rightarrow> error + (nat \<times> int list)" where
  "nd_resolve ds [] = Inr (0, ds)"
| "nd_resolve [] (i # ix) = Inl IndexError"
| "nd_resolve (d # ds) (i # ix) =
     (case norm_index d i of
        Inl e \<Rightarrow> Inl e
      | Inr k \<Rightarrow>
         (case nd_resolve ds ix of
            Inl e \<Rightarrow> Inl e
          | Inr (j, rest) \<Rightarrow> Inr (k * nat (prod_list ds) + j, rest)))"

text \<open>
  \<^verbatim>\<open>a[ix]\<close> for an object array: with as many indices as dimensions the result is the
  object in the cell (a row), with fewer it is a view of the addressed block.
\<close>

definition nd_getitem :: "heap \<Rightarrow> ndarray \<Rightarrow> int list \<Rightarrow> error + obj" where
  "nd_getitem h a ix =
     (case nd_resolve (dims a) ix of
        Inl e \<Rightarrow> Inl e
      | Inr (k, rest) \<Rightarrow>
          if length ix = length (dims a) then Inr (Row (flat_get h a k))
          else Inr (Arr \<lparr>off = off a + k, dims = rest\<rparr>))"

text \<open>
  A tuple of integers on a sliced view: the first index selects a block, the others are
  resolved within it. The empty tuple yields the view itself.
\<close>

definition str_getitem :: "heap \<Rightarrow> strided \<Rightarrow> int list \<Rightarrow> error + obj" where
  "str_getitem h s ix =
     (case ix of
        [] \<Rightarrow> if sdims s = [] then Inr (Row (str_get h s 0)) else Inr (Str s)
      | i # rest \<Rightarrow>
          (case sdims s of
             [] \<Rightarrow> Inl IndexError
           | d # ds \<Rightarrow>
               (case norm_index d i of
                  Inl e \<Rightarrow> Inl e
                | Inr k \<Rightarrow> nd_getitem h \<lparr>off = str_block s k, dims = ds\<rparr> rest)))"

text \<open>
  \<^verbatim>\<open>g[ix]\<close> with a tuple and \<^verbatim>\<open>g[i]\<close> with an integer, for the kinds of object.
  A bitarray accepts an integer and rejects a tuple with TypeError; a bool is not
  subscriptable.
\<close>

definition getitem_tuple :: "heap \<Rightarrow> obj \<Rightarrow> int list \<Rightarrow> error + obj" where
  "getitem_tuple h g ix =
     (case g of
        Bit b \<Rightarrow> Inl TypeError
      | Row r \<Rightarrow> Inl TypeError
      | Arr a \<Rightarrow> nd_getitem h a ix
      | Str s \<Rightarrow> str_getitem h s ix)"

definition getitem_int :: "heap \<Rightarrow> obj \<Rightarrow> int \<Rightarrow> error + obj" where
  "getitem_int h g i =
     (case g of
        Bit b \<Rightarrow> Inl TypeError
      | Row r \<Rightarrow> map_sum id Bit (bitarray_getitem (rows h r) i)
      | Arr a \<Rightarrow> nd_getitem h a [i]
      | Str s \<Rightarrow> str_getitem h s [i])"

text \<open>The attribute \<^verbatim>\<open>.shape\<close>: only an array has it.\<close>

definition obj_shape :: "obj \<Rightarrow> error + int list" where
  "obj_shape g =
     (case g of
        Arr a \<Rightarrow> Inr (dims a)
      | Str s \<Rightarrow> Inr (sdims s)
      | Row r \<Rightarrow> Inl AttributeError
      | Bit b \<Rightarrow> Inl AttributeError)"

subsection \<open>Slices\<close>

text \<open>
  Python's \<^verbatim>\<open>slice(a, b, c).indices(n)\<close>: the first index, the step and the number of
  indices that the slice selects from a sequence of length \<open>n\<close>. A bound that is given is
  counted from the end when negative and then clipped; a bound that is not given is the
  end of the sequence in the direction of the step. A step of zero raises ValueError.
\<close>

definition slice_clip :: "int \<Rightarrow> int \<Rightarrow> int \<Rightarrow> int option \<Rightarrow> int \<Rightarrow> int" where
  "slice_clip n lower upper x dflt =
     (case x of
        None \<Rightarrow> dflt
      | Some v \<Rightarrow> if v < 0 then max (v + n) lower else min v upper)"

definition slice_adjust :: "int option \<Rightarrow> int option \<Rightarrow> int \<Rightarrow> int \<Rightarrow> int \<times> int \<times> nat" where
  "slice_adjust a b st n =
     (let lower = (if st < 0 then - 1 else 0);
          upper = (if st < 0 then n - 1 else n);
          s = slice_clip n lower upper a (if st < 0 then upper else lower);
          e = slice_clip n lower upper b (if st < 0 then lower else upper)
      in (s, st,
          nat (if st < 0 then (if e < s then (s - e - 1) div (- st) + 1 else 0)
               else (if s < e then (e - s - 1) div st + 1 else 0))))"

definition slice_indices :: "int option \<Rightarrow> int option \<Rightarrow> int option \<Rightarrow> int \<Rightarrow> error + (int \<times> int \<times> nat)" where
  "slice_indices a b c n =
     (let st = (case c of None \<Rightarrow> 1 | Some x \<Rightarrow> x) in
      if st = 0 then Inl ValueError else Inr (slice_adjust a b st n))"

text \<open>A slice of a bitarray is a new bitarray.\<close>

definition bitarray_slice :: "bitarray \<Rightarrow> int option \<Rightarrow> int option \<Rightarrow> int option \<Rightarrow> error + bitarray" where
  "bitarray_slice bs a b c =
     (case slice_indices a b c (int (length bs)) of
        Inl e \<Rightarrow> Inl e
      | Inr (s, st, cnt) \<Rightarrow> Inr (map (\<lambda>k. bs ! nat (s + st * int k)) [0..<cnt]))"

text \<open>
  A slice of an array along its first axis is a view of the same cells. Slicing a view
  that a slice has yielded composes the two selections.
\<close>

definition str_slice :: "strided \<Rightarrow> int option \<Rightarrow> int option \<Rightarrow> int option \<Rightarrow> error + strided" where
  "str_slice s a b c =
     (case sdims s of
        [] \<Rightarrow> Inl IndexError
      | d # ds \<Rightarrow>
          (case slice_indices a b c (int (nat d)) of
             Inl e \<Rightarrow> Inl e
           | Inr (st0, stp, cnt) \<Rightarrow>
               (let lo = (if 0 < stp then st0 else st0 + stp * (int cnt - 1));
                    hi = (if 0 < stp then st0 + stp * (int cnt - 1) else st0);
                    first = (if reversed s then str_count s - 1 - nat hi else nat lo)
                in Inr \<lparr>base = (if cnt = 0 then base s
                                 else base s + first * (Suc (skip s) * str_blk s)),
                         sdims = int cnt # ds,
                         skip = Suc (skip s) * nat \<bar>stp\<bar> - 1,
                         reversed = (reversed s \<noteq> (stp < 0))\<rparr>)))"

subsection \<open>Lists of indices\<close>

fun norm_all :: "int \<Rightarrow> int list \<Rightarrow> error + nat list" where
  "norm_all n [] = Inr []"
| "norm_all n (i # ix) =
     (case norm_index n i of
        Inl e \<Rightarrow> Inl e
      | Inr k \<Rightarrow> (case norm_all n ix of Inl e \<Rightarrow> Inl e | Inr ks \<Rightarrow> Inr (k # ks)))"

text \<open>
  An array indexed with a list of integers (numpy's advanced indexing) yields a new array:
  the cells of the selected blocks are copied into fresh cells.
\<close>

definition str_take :: "heap \<Rightarrow> strided \<Rightarrow> int list \<Rightarrow> error + (ndarray \<times> heap)" where
  "str_take h s l =
     (case sdims s of
        [] \<Rightarrow> Inl IndexError
      | d # ds \<Rightarrow>
          (case norm_all d l of
             Inl e \<Rightarrow> Inl e
           | Inr ks \<Rightarrow>
               Inr (\<lparr>off = ncells h, dims = int (length ks) # ds\<rparr>,
                    h\<lparr>cells :=
                        (\<lambda>c. if ncells h \<le> c \<and> c < ncells h + length ks * str_blk s
                             then cells h (str_block s (ks ! ((c - ncells h) div str_blk s))
                                           + (c - ncells h) mod str_blk s)
                             else cells h c),
                      ncells := ncells h + length ks * str_blk s\<rparr>)))"

text \<open>
  \<^verbatim>\<open>g[a:b:c]\<close> and \<^verbatim>\<open>g[l]\<close> for the kinds of object, with the store after. A bitarray
  does not accept a list as index (so the comment in \<^verbatim>\<open>__getitem__\<close>, which treats the list
  by itself for this reason).
\<close>

definition getitem_slice :: "heap \<Rightarrow> obj \<Rightarrow> int option \<Rightarrow> int option \<Rightarrow> int option \<Rightarrow> error + (obj \<times> heap)" where
  "getitem_slice h g a b c =
     (case g of
        Bit x \<Rightarrow> Inl TypeError
      | Row r \<Rightarrow>
          (case bitarray_slice (rows h r) a b c of
             Inl e \<Rightarrow> Inl e
           | Inr bs \<Rightarrow> (case new_bitarray bs h of (r', h') \<Rightarrow> Inr (Row r', h')))
      | Arr ar \<Rightarrow> map_sum id (\<lambda>s. (Str s, h)) (str_slice (str_of_arr ar) a b c)
      | Str s \<Rightarrow> map_sum id (\<lambda>s'. (Str s', h)) (str_slice s a b c))"

definition getitem_list :: "heap \<Rightarrow> obj \<Rightarrow> int list \<Rightarrow> error + (obj \<times> heap)" where
  "getitem_list h g l =
     (case g of
        Bit x \<Rightarrow> Inl TypeError
      | Row r \<Rightarrow> Inl TypeError
      | Arr ar \<Rightarrow> map_sum id (\<lambda>(a', h'). (Arr a', h')) (str_take h (str_of_arr ar) l)
      | Str s \<Rightarrow> map_sum id (\<lambda>(a', h'). (Arr a', h')) (str_take h s l))"

text \<open>\<^verbatim>\<open>list(map(lambda x: g[x], l))\<close>\<close>

fun getitem_each :: "heap \<Rightarrow> obj \<Rightarrow> int list \<Rightarrow> error + obj list" where
  "getitem_each h g [] = Inr []"
| "getitem_each h g (x # xs) =
     (case getitem_int h g x of
        Inl e \<Rightarrow> Inl e
      | Inr v \<Rightarrow> (case getitem_each h g xs of Inl e \<Rightarrow> Inl e | Inr vs \<Rightarrow> Inr (v # vs)))"

section \<open>Plane\<close>

subsection \<open>Construction\<close>

text \<open>
  The loop \<^verbatim>\<open>for i in range(self.grid.size): self.grid.flat[i] = self.N * bitarray('0')\<close>.
  Each pass makes a row object of its own. A sequence times a negative number is empty.
\<close>

fun init_loop :: "ndarray \<Rightarrow> int \<Rightarrow> nat list \<Rightarrow> heap \<Rightarrow> heap" where
  "init_loop a n [] h = h"
| "init_loop a n (i # ix) h =
     (case new_bitarray (replicate (nat n) False) h of
        (r, h') \<Rightarrow> init_loop a n ix (flat_set a i r h'))"

definition Plane_init :: "int list \<Rightarrow> obj option \<Rightarrow> heap \<Rightarrow> error + (plane \<times> heap)" where
  "Plane_init sh g h =
     (let n = (if length sh = 0 then 0 else last sh) in
      case g of
        Some g' \<Rightarrow> Inr (\<lparr>grid = g', shape = sh, N = n\<rparr>, h)
      | None \<Rightarrow>
          if length sh = 1 then
            (case new_bitarray (replicate (nat n) False) h of
               (r, h') \<Rightarrow> Inr (\<lparr>grid = Row r, shape = sh, N = n\<rparr>, h'))
          else
            (case np_empty (butlast sh) h of
               Inl e \<Rightarrow> Inl e
             | Inr (a, h') \<Rightarrow>
                 Inr (\<lparr>grid = Arr a, shape = sh, N = n\<rparr>, init_loop a n [0..<nd_size a] h')))"

subsection \<open>Indexing\<close>

text \<open>
  The last statements of \<^verbatim>\<open>__getitem__\<close>, for an object \<open>tmp\<close> that indexing has made
  together with the store \<open>h\<close>:
  \<^verbatim>\<open>try: return Plane(tmp.shape + (self.N,), tmp)\<close>,
  \<^verbatim>\<open>except AttributeError: return Plane((self.N,), tmp)\<close>.
\<close>

definition wrap_plane :: "plane \<Rightarrow> obj \<Rightarrow> heap \<Rightarrow> error + (pyval \<times> heap)" where
  "wrap_plane self tmp h =
     (case obj_shape tmp of
        Inr s \<Rightarrow> map_sum id (\<lambda>(p, h'). (View p, h')) (Plane_init (s @ [N self]) (Some tmp) h)
      | Inl AttributeError \<Rightarrow> map_sum id (\<lambda>(p, h'). (View p, h')) (Plane_init [N self] (Some tmp) h)
      | Inl e \<Rightarrow> Inl e)"

text \<open>
  The branches of \<^verbatim>\<open>__getitem__\<close> for a list and for a slice. They may make new objects
  (a copy of cells, a new bitarray), so they return the store as well.
\<close>

definition getitem_Lst :: "plane \<Rightarrow> int list \<Rightarrow> heap \<Rightarrow> error + (pyval \<times> heap)" where
  "getitem_Lst self l h =
     (if length (shape self) = 1 then map_sum id (\<lambda>vs. (Objs vs, h)) (getitem_each h (grid self) l)
      else
        (case getitem_list h (grid self) l of
           Inl e \<Rightarrow> Inl e
         | Inr (tmp, h') \<Rightarrow> wrap_plane self tmp h'))"

definition getitem_Slc :: "plane \<Rightarrow> int option \<Rightarrow> int option \<Rightarrow> int option \<Rightarrow> heap \<Rightarrow> error + (pyval \<times> heap)" where
  "getitem_Slc self a b c h =
     (if length (shape self) = 1
      then map_sum id (\<lambda>(v, h'). (Obj v, h')) (getitem_slice h (grid self) a b c)
      else
        (case getitem_slice h (grid self) a b c of
           Inl e \<Rightarrow> Inl e
         | Inr (tmp, h') \<Rightarrow> wrap_plane self tmp h'))"

text \<open>
  The value of \<^verbatim>\<open>self[index]\<close>. A tuple and an integer leave the store as it is;
  \<open>getitem_heap\<close> below gives the store after the call for every index.
\<close>

definition getitem :: "plane \<Rightarrow> index \<Rightarrow> heap \<Rightarrow> error + pyval" where
  "getitem self index h =
     (case index of
        Tup ix \<Rightarrow>
          if length ix = length (shape self) then
            (case getitem_tuple h (grid self) (butlast ix) of
               Inl e \<Rightarrow> Inl e
             | Inr b_array \<Rightarrow>
                 if ix = [] then Inl IndexError
                 else map_sum id Obj (getitem_int h b_array (last ix)))
          else
            (case getitem_tuple h (grid self) ix of
               Inl e \<Rightarrow> Inl e
             | Inr subgrid \<Rightarrow>
                 (case obj_shape subgrid of
                    Inl e \<Rightarrow> Inl e
                  | Inr s \<Rightarrow> map_sum id (View \<circ> fst) (Plane_init (s @ [N self]) (Some subgrid) h)))
      | Scalar i \<Rightarrow>
          if length (shape self) = 1 then map_sum id Obj (getitem_int h (grid self) i)
          else
            (case getitem_int h (grid self) i of
               Inl e \<Rightarrow> Inl e
             | Inr tmp \<Rightarrow>
                 (case obj_shape tmp of
                    Inr s \<Rightarrow> map_sum id (View \<circ> fst) (Plane_init (s @ [N self]) (Some tmp) h)
                  | Inl AttributeError \<Rightarrow> map_sum id (View \<circ> fst) (Plane_init [N self] (Some tmp) h)
                  | Inl e \<Rightarrow> Inl e))
      | Lst l \<Rightarrow> map_sum id fst (getitem_Lst self l h)
      | Slc a b c \<Rightarrow> map_sum id fst (getitem_Slc self a b c h))"

definition getitem_heap :: "plane \<Rightarrow> index \<Rightarrow> heap \<Rightarrow> error + (pyval \<times> heap)" where
  "getitem_heap self index h =
     (case index of
        Tup ix \<Rightarrow> map_sum id (\<lambda>v. (v, h)) (getitem self (Tup ix) h)
      | Scalar i \<Rightarrow> map_sum id (\<lambda>v. (v, h)) (getitem self (Scalar i) h)
      | Lst l \<Rightarrow> getitem_Lst self l h
      | Slc a b c \<Rightarrow> getitem_Slc self a b c h)"

subsection \<open>Flattening a coordinate\<close>

text \<open>
  The loop of \<^verbatim>\<open>flatten\<close> over \<^verbatim>\<open>reversed(range(len(coordinate[:-1])))\<close>, with the pair
  \<^verbatim>\<open>(flat_index, gridprod)\<close> as its state. \<^verbatim>\<open>coordinate[i]\<close> is in range there;
  \<^verbatim>\<open>self.shape[i]\<close> raises IndexError when the shape is shorter than the coordinate.
\<close>

fun flatten_loop :: "int list \<Rightarrow> int list \<Rightarrow> nat list \<Rightarrow> int \<times> int \<Rightarrow> error + (int \<times> int)" where
  "flatten_loop sh c [] acc = Inr acc"
| "flatten_loop sh c (i # ix) (flat_index, gridprod) =
     (if i < length sh
      then flatten_loop sh c ix (flat_index + c ! i * gridprod, gridprod * sh ! i)
      else Inl IndexError)"

definition flatten :: "plane \<Rightarrow> int list \<Rightarrow> error + (int \<times> int)" where
  "flatten self coordinate =
     (case flatten_loop (shape self) coordinate (rev [0..<length (butlast coordinate)]) (0, 1) of
        Inl e \<Rightarrow> Inl e
      | Inr (flat_index, gridprod) \<Rightarrow>
          if coordinate = [] then Inl IndexError else Inr (flat_index, last coordinate))"

subsection \<open>Randomization\<close>

text \<open>
  The module \<^verbatim>\<open>random\<close> is a library: its generator is taken as a stream of raw
  numbers, and \<^verbatim>\<open>randrange(start, stop)\<close> consumes the next one and maps it into
  \<open>start \<le> v < stop\<close>. An empty range raises ValueError, and so does a stop that is not
  an integer (\<open>None\<close> below).
\<close>

type_synonym rng = "nat \<Rightarrow> nat"

definition randrange :: "int \<Rightarrow> int option \<Rightarrow> rng \<Rightarrow> error + (int \<times> rng)" where
  "randrange start stop g =
     (case stop of
        None \<Rightarrow> Inl ValueError
      | Some b \<Rightarrow>
          if b - start \<le> 0 then Inl ValueError
          else Inr (start + int (g 0) mod (b - start), g \<circ> Suc))"

text \<open>
  \<^verbatim>\<open>max_u = 2**self.N - 1\<close>. For a negative \<open>N\<close> the power is a float and the
  difference is not a usable stop for \<^verbatim>\<open>randrange\<close>.
\<close>

definition max_u :: "int \<Rightarrow> int option" where
  "max_u n = (if 0 \<le> n then Some (2 ^ nat n - 1) else None)"

text \<open>\<^verbatim>\<open>bin(v)\<close>: the binary digits, most significant first, after the prefix \<^verbatim>\<open>0b\<close>.\<close>

fun bin_digits :: "nat \<Rightarrow> string" where
  "bin_digits n =
     (if n < 2 then [if n = 1 then CHR ''1'' else CHR ''0'']
      else bin_digits (n div 2) @ [if n mod 2 = 1 then CHR ''1'' else CHR ''0''])"

declare bin_digits.simps [simp del]

definition bin :: "int \<Rightarrow> string" where
  "bin v = (if v < 0 then ''-0b'' @ bin_digits (nat (- v)) else ''0b'' @ bin_digits (nat v))"

text \<open>\<^verbatim>\<open>s.zfill(width)\<close>: zeros on the left up to the width, after a leading sign if there is one.\<close>

definition zfill :: "string \<Rightarrow> int \<Rightarrow> string" where
  "zfill s width =
     (let pad = replicate (nat (width - int (length s))) (CHR ''0'') in
      case s of
        [] \<Rightarrow> pad
      | c # t \<Rightarrow> if c = CHR ''+'' \<or> c = CHR ''-'' then c # pad @ t else pad @ s)"

text \<open>\<^verbatim>\<open>bitarray(s)\<close> for a string of the characters 0 and 1; another character raises ValueError.\<close>

definition bitarray_of_str :: "string \<Rightarrow> error + bitarray" where
  "bitarray_of_str s =
     (if list_all (\<lambda>c. c = CHR ''0'' \<or> c = CHR ''1'') s
      then Inr (map (\<lambda>c. c = CHR ''1'') s)
      else Inl ValueError)"

text \<open>\<^verbatim>\<open>gen = lambda: bin(r.randrange(0, max_u))[2:]\<close>\<close>

definition gen :: "int option \<Rightarrow> rng \<Rightarrow> error + (string \<times> rng)" where
  "gen mu g =
     (case randrange 0 mu g of
        Inl e \<Rightarrow> Inl e
      | Inr (v, g') \<Rightarrow> Inr (drop 2 (bin v), g'))"

text \<open>\<^verbatim>\<open>bitarray(gen().zfill(self.N))\<close>: a new row object.\<close>

definition random_row :: "int option \<Rightarrow> int \<Rightarrow> rng \<Rightarrow> heap \<Rightarrow> error + (ref \<times> rng \<times> heap)" where
  "random_row mu n g h =
     (case gen mu g of
        Inl e \<Rightarrow> Inl e
      | Inr (s, g') \<Rightarrow>
          (case bitarray_of_str (zfill s n) of
             Inl e \<Rightarrow> Inl e
           | Inr b \<Rightarrow> (case new_bitarray b h of (r, h') \<Rightarrow> Inr (r, g', h'))))"

fun randomize_loop :: "ndarray \<Rightarrow> int option \<Rightarrow> int \<Rightarrow> nat list \<Rightarrow> rng \<Rightarrow> heap \<Rightarrow> error + (rng \<times> heap)" where
  "randomize_loop a mu n [] g h = Inr (g, h)"
| "randomize_loop a mu n (i # ix) g h =
     (case random_row mu n g h of
        Inl e \<Rightarrow> Inl e
      | Inr (r, g', h') \<Rightarrow> randomize_loop a mu n ix g' (flat_set a i r h'))"

fun randomize_loop_str :: "strided \<Rightarrow> int option \<Rightarrow> int \<Rightarrow> nat list \<Rightarrow> rng \<Rightarrow> heap \<Rightarrow> error + (rng \<times> heap)" where
  "randomize_loop_str s mu n [] g h = Inr (g, h)"
| "randomize_loop_str s mu n (i # ix) g h =
     (case random_row mu n g h of
        Inl e \<Rightarrow> Inl e
      | Inr (r, g', h') \<Rightarrow> randomize_loop_str s mu n ix g' (str_set s i r h'))"

text \<open>
  In the one-dimensional case the attribute \<^verbatim>\<open>self.grid\<close> is bound to the new row; otherwise
  the cells of the array are assigned and the plane object itself stays as it is.
  \<^verbatim>\<open>self.grid.size\<close> needs an array.
\<close>

definition randomize :: "plane \<Rightarrow> rng \<Rightarrow> heap \<Rightarrow> error + (plane \<times> rng \<times> heap)" where
  "randomize self g h =
     (if length (shape self) > 0 then
        (let mu = max_u (N self) in
         if length (shape self) = 1 then
           (case random_row mu (N self) g h of
              Inl e \<Rightarrow> Inl e
            | Inr (r, g', h') \<Rightarrow> Inr (self\<lparr>grid := Row r\<rparr>, g', h'))
         else
           (case grid self of
              Arr a \<Rightarrow>
                (case randomize_loop a mu (N self) [0..<nd_size a] g h of
                   Inl e \<Rightarrow> Inl e
                 | Inr (g', h') \<Rightarrow> Inr (self, g', h'))
            | Str s \<Rightarrow>
                (case randomize_loop_str s mu (N self) [0..<str_size s] g h of
                   Inl e \<Rightarrow> Inl e
                 | Inr (g', h') \<Rightarrow> Inr (self, g', h'))
            | Row r \<Rightarrow> Inl AttributeError
            | Bit b \<Rightarrow> Inl AttributeError))
      else Inr (self, g, h))"

subsection \<open>Dense materialization\<close>

text \<open>
  A numpy array built by \<^verbatim>\<open>bits\<close>: its dimensions and its cells in row-major order. A cell
  is a bit; it is a byte when the buffer of a bitarray is read, a row reference when an
  object array is copied, and a Python list when \<^verbatim>\<open>np.array\<close> is given lists of unequal
  lengths.
\<close>

datatype cell = CBit bool | CByte nat | CRow ref | CList "bool list"

record dense =
  dshape :: "int list"
  ddata :: "cell list"

datatype dval = DCell cell | DArr dense

text \<open>The number a row spells, most significant bit first.\<close>

definition bits_val :: "bitarray \<Rightarrow> nat" where
  "bits_val b = foldl (\<lambda>a x. 2 * a + (if x then 1 else 0)) 0 b"

text \<open>
  The buffer of a bitarray: its bits packed eight to a byte, the first bit the most
  significant, the last byte filled up with zero bits.
\<close>

fun pack_bytes :: "bitarray \<Rightarrow> nat list" where
  "pack_bytes bs =
     (if bs = [] then []
      else bits_val (take 8 (bs @ replicate 7 False)) # pack_bytes (drop 8 bs))"

declare pack_bytes.simps [simp del]

text \<open>
  \<^verbatim>\<open>np.array(self.grid)\<close>. A bitarray is read through its buffer: the result is the
  one-dimensional array of its bytes, not of its bits.
\<close>

definition np_array_obj :: "heap \<Rightarrow> obj \<Rightarrow> dense" where
  "np_array_obj h g =
     (case g of
        Bit b \<Rightarrow> \<lparr>dshape = [], ddata = [CBit b]\<rparr>
      | Row r \<Rightarrow>
          \<lparr>dshape = [int (length (pack_bytes (rows h r)))],
           ddata = map CByte (pack_bytes (rows h r))\<rparr>
      | Arr a \<Rightarrow> \<lparr>dshape = dims a, ddata = map (\<lambda>i. CRow (flat_get h a i)) [0..<nd_size a]\<rparr>
      | Str s \<Rightarrow> \<lparr>dshape = sdims s, ddata = map (\<lambda>i. CRow (str_get h s i)) [0..<str_size s]\<rparr>)"

text \<open>\<^verbatim>\<open>np.array\<close> of a list of lists of bits.\<close>

definition np_array_lists :: "bool list list \<Rightarrow> dense" where
  "np_array_lists ls =
     (case ls of
        [] \<Rightarrow> \<lparr>dshape = [0], ddata = []\<rparr>
      | l # _ \<Rightarrow>
          if list_all (\<lambda>m. length m = length l) ls
          then \<lparr>dshape = [int (length ls), int (length l)], ddata = map CBit (concat ls)\<rparr>
          else \<lparr>dshape = [int (length ls)], ddata = map CList ls\<rparr>)"

text \<open>
  \<^verbatim>\<open>np.reshape(tmp, shape)\<close>: the cells stay in order. Every negative dimension stands for
  an unknown one; there may be one, and it is inferred. The dimensions that are given
  are multiplied in order, and the product must fit \<^verbatim>\<open>npy_intp\<close> at each step; it must
  equal the number of cells, or divide it when a dimension is inferred.
\<close>

fun known_size :: "int list \<Rightarrow> int \<Rightarrow> int option" where
  "known_size [] s = Some s"
| "known_size (d # ds) s =
     (if d < 0 then known_size ds s
      else if npy_max_intp < s * d then None
      else known_size ds (s * d))"

definition np_reshape :: "dense \<Rightarrow> int list \<Rightarrow> error + dense" where
  "np_reshape d sh =
     (let total = int (length (ddata d));
          unknown = length (filter (\<lambda>x. x < 0) sh)
      in if npy_maxdims < length sh then Inl ValueError
         else if list_ex (\<lambda>x. x < - npy_max_intp - 1 \<or> npy_max_intp < x) sh then Inl ValueError
         else if 1 < unknown then Inl ValueError
         else
           (case known_size sh 1 of
              None \<Rightarrow> Inl ValueError
            | Some known \<Rightarrow>
                if unknown = 1 then
                  (if known = 0 then Inl ValueError
                   else if total mod known = 0
                     then Inr \<lparr>dshape = map (\<lambda>x. if x < 0 then total div known else x) sh,
                               ddata = ddata d\<rparr>
                     else Inl ValueError)
                else if known = total then Inr \<lparr>dshape = sh, ddata = ddata d\<rparr>
                else Inl ValueError))"

definition bits :: "plane \<Rightarrow> heap \<Rightarrow> error + dense" where
  "bits self h =
     (if length (shape self) = 1 then Inr (np_array_obj h (grid self))
      else
        (case grid self of
           Arr a \<Rightarrow>
             np_reshape (np_array_lists (map (\<lambda>i. rows h (flat_get h a i)) [0..<nd_size a])) (shape self)
         | Str s \<Rightarrow>
             np_reshape (np_array_lists (map (\<lambda>i. rows h (str_get h s i)) [0..<str_size s])) (shape self)
         | Row r \<Rightarrow> Inl AttributeError
         | Bit b \<Rightarrow> Inl AttributeError))"

text \<open>Indexing the materialized array with a tuple of integers.\<close>

definition dense_getitem :: "dense \<Rightarrow> int list \<Rightarrow> error + dval" where
  "dense_getitem d ix =
     (case nd_resolve (dshape d) ix of
        Inl e \<Rightarrow> Inl e
      | Inr (k, rest) \<Rightarrow>
          if length ix = length (dshape d) then Inr (DCell (ddata d ! k))
          else Inr (DArr \<lparr>dshape = rest, ddata = take (nat (prod_list rest)) (drop k (ddata d))\<rparr>))"

subsection \<open>Auxiliary notions for the statements\<close>

definition heap0 :: heap where
  "heap0 = \<lparr>rows = (\<lambda>r. []), nrows = 0, cells = (\<lambda>k. 0), ncells = 0\<rparr>"

text \<open>
  The row-major linear index in the words of the specification: each component of the
  outer coordinate times the product of the dimensions after it.
\<close>

fun row_major :: "int list \<Rightarrow> int list \<Rightarrow> int" where
  "row_major (d # ds) (c # cs) = c * prod_list ds + row_major ds cs"
| "row_major ds cs = 0"

text \<open>The row that \<^verbatim>\<open>randomize\<close> builds from a drawn value \<open>v\<close> for the width \<open>n\<close>.\<close>

definition row_of :: "int \<Rightarrow> int \<Rightarrow> bitarray" where
  "row_of n v = map (\<lambda>c. c = CHR ''1'') (zfill (drop 2 (bin v)) n)"

text \<open>
  The store after a loop has assigned the cells \<open>m, ..., m + k - 1\<close> of the array \<open>a\<close>,
  in this order, each with a new row, the \<open>j\<close>-th of them with the contents \<open>f j\<close>.
\<close>

definition filled :: "ndarray \<Rightarrow> nat \<Rightarrow> nat \<Rightarrow> (nat \<Rightarrow> bitarray) \<Rightarrow> heap \<Rightarrow> heap" where
  "filled a m k f h =
     h\<lparr>rows := (\<lambda>r. if nrows h \<le> r \<and> r < nrows h + k then f (r - nrows h) else rows h r),
       nrows := nrows h + k,
       cells := (\<lambda>c. if off a + m \<le> c \<and> c < off a + m + k then nrows h + (c - (off a + m))
                      else cells h c)\<rparr>"

text \<open>
  The store after a loop has assigned the cells \<open>0, ..., k - 1\<close> of the sliced view \<open>s\<close>,
  in this order, each with a new row, the \<open>j\<close>-th of them with the contents \<open>f j\<close>.
\<close>

definition str_filled :: "strided \<Rightarrow> nat \<Rightarrow> nat \<Rightarrow> (nat \<Rightarrow> bitarray) \<Rightarrow> heap \<Rightarrow> heap" where
  "str_filled s m k f h =
     h\<lparr>rows := (\<lambda>r. if nrows h \<le> r \<and> r < nrows h + k then f (r - nrows h) else rows h r),
       nrows := nrows h + k,
       cells := fold (\<lambda>i cs. cs(str_flat s i := nrows h + (i - m))) [m..<m + k] (cells h)\<rparr>"

text \<open>The rows a plane holds, in storage order.\<close>

definition plane_rows :: "heap \<Rightarrow> plane \<Rightarrow> bitarray list" where
  "plane_rows h p =
     (case grid p of
        Bit b \<Rightarrow> []
      | Row r \<Rightarrow> [rows h r]
      | Arr a \<Rightarrow> map (\<lambda>i. rows h (flat_get h a i)) [0..<nd_size a]
      | Str s \<Rightarrow> map (\<lambda>i. rows h (str_get h s i)) [0..<str_size s])"

text \<open>The row objects a plane holds, in storage order.\<close>

definition plane_refs :: "heap \<Rightarrow> plane \<Rightarrow> ref list" where
  "plane_refs h p =
     (case grid p of
        Bit b \<Rightarrow> []
      | Row r \<Rightarrow> [r]
      | Arr a \<Rightarrow> map (flat_get h a) [0..<nd_size a]
      | Str s \<Rightarrow> map (str_get h s) [0..<str_size s])"

text \<open>
  The bits \<open>d\<close> are the binary representation of \<open>v\<close>: they spell \<open>v\<close>, and the first
  of them is set unless \<open>d\<close> is a single bit.
\<close>

definition natural_binary :: "nat \<Rightarrow> bitarray \<Rightarrow> bool" where
  "natural_binary v d = (bits_val d = v \<and> (case d of [] \<Rightarrow> False | b # t \<Rightarrow> b \<or> t = []))"

text \<open>
  A tuple of integers is within the bounds of the dimensions \<open>ds\<close>: it has no more
  components than there are dimensions, and each component \<open>i\<close> satisfies \<open>-d \<le> i < d\<close>
  for its dimension \<open>d\<close>.
\<close>

fun in_bounds :: "int list \<Rightarrow> int list \<Rightarrow> bool" where
  "in_bounds ds [] = True"
| "in_bounds [] (i # ix) = False"
| "in_bounds (d # ds) (i # ix) = (- d \<le> i \<and> i < d \<and> in_bounds ds ix)"

text \<open>The coordinate with every negative component counted from the end of its dimension.\<close>

fun wrap_index :: "int list \<Rightarrow> int list \<Rightarrow> int list" where
  "wrap_index (d # ds) (i # ix) = (if i < 0 then i + d else i) # wrap_index ds ix"
| "wrap_index ds ix = ix"

text \<open>
  The storage of a plane is of the kind its shape declares: an array with the dimensions
  \<open>shape[:-1]\<close> (at least one), or a single row for a one-dimensional shape. A plane is
  consistent in a store when, besides, each of its rows has length \<open>N\<close>.
\<close>

definition shaped :: "plane \<Rightarrow> bool" where
  "shaped p =
     (case grid p of
        Arr a \<Rightarrow> dims a \<noteq> [] \<and> shape p = dims a @ [N p]
      | Str s \<Rightarrow> sdims s \<noteq> [] \<and> shape p = sdims s @ [N p]
      | Row r \<Rightarrow> shape p = [N p]
      | Bit b \<Rightarrow> False)"

definition consistent :: "heap \<Rightarrow> plane \<Rightarrow> bool" where
  "consistent h p = (shaped p \<and> list_all (\<lambda>b. int (length b) = N p) (plane_rows h p))"

text \<open>The index expression is a list.\<close>

fun is_list :: "index \<Rightarrow> bool" where
  "is_list (Lst l) = True"
| "is_list i = False"

text \<open>
  The coordinate of the parent that corresponds to the coordinate \<open>c\<close> of the view that
  an index expression yields. A tuple of integers and an integer come before \<open>c\<close>. A
  slice maps the first component \<open>k\<close> of \<open>c\<close>, counted from the end of the view when
  negative, to \<open>start + step * k\<close>; a list maps it to its \<open>k\<close>-th element.
\<close>

definition parent_coord :: "plane \<Rightarrow> index \<Rightarrow> int list \<Rightarrow> int list" where
  "parent_coord p i c =
     (case i of
        Tup ix \<Rightarrow> ix @ c
      | Scalar j \<Rightarrow> j # c
      | Slc a b st \<Rightarrow>
          (case c of
             [] \<Rightarrow> []
           | c0 # cs \<Rightarrow>
               (case slice_indices a b st (int (nat (hd (shape p)))) of
                  Inl e \<Rightarrow> c
                | Inr (s0, stp, cnt) \<Rightarrow> (s0 + stp * (if c0 < 0 then c0 + int cnt else c0)) # cs))
      | Lst l \<Rightarrow>
          (case c of
             [] \<Rightarrow> []
           | c0 # cs \<Rightarrow>
               (case norm_index (int (length l)) c0 of
                  Inl e \<Rightarrow> c
                | Inr k \<Rightarrow> l ! k # cs)))"

text \<open>The \<open>k\<close>-th block of an array along its first axis: an array of one dimension less.\<close>

definition block :: "obj \<Rightarrow> nat \<Rightarrow> ndarray" where
  "block g k =
     (case g of
        Arr a \<Rightarrow> \<lparr>off = off a + k * nat (prod_list (tl (dims a))), dims = tl (dims a)\<rparr>
      | Str s \<Rightarrow> \<lparr>off = str_block s k, dims = tl (sdims s)\<rparr>
      | Row r \<Rightarrow> \<lparr>off = 0, dims = []\<rparr>
      | Bit b \<Rightarrow> \<lparr>off = 0, dims = []\<rparr>)"

text \<open>
  A grid of shape \<open>(2,2,3)\<close> as the constructor builds it in the empty store, and the view
  that indexing it with 1 yields.
\<close>

definition ex_plane :: plane where
  "ex_plane = \<lparr>grid = Arr \<lparr>off = 0, dims = [2, 2]\<rparr>, shape = [2, 2, 3], N = 3\<rparr>"

definition ex_heap :: heap where
  "ex_heap = filled \<lparr>off = 0, dims = [2, 2]\<rparr> 0 4 (\<lambda>j. [False, False, False]) (heap0\<lparr>ncells := 4\<rparr>)"

definition ex_view :: plane where
  "ex_view = \<lparr>grid = Arr \<lparr>off = 2, dims = [2]\<rparr>, shape = [2, 3], N = 3\<rparr>"

text \<open>The view that the slice \<^verbatim>\<open>1:\<close> of that grid yields, and the view that is its row \<open>(1,0)\<close>.\<close>

definition ex_slice :: plane where
  "ex_slice =
     \<lparr>grid = Str \<lparr>base = 2, sdims = [1, 2], skip = 0, reversed = False\<rparr>, shape = [1, 2, 3], N = 3\<rparr>"

definition ex_row :: plane where
  "ex_row = \<lparr>grid = Row 2, shape = [3], N = 3\<rparr>"

section \<open>Properties\<close>

subsection \<open>Flattening\<close>

lemma row_major_snoc:
  "length ds = length cs \<Longrightarrow> row_major (ds @ [d]) (cs @ [x]) = row_major ds cs * d + x"
  by (induction ds cs rule: list_induct2) (simp_all add: algebra_simps)

text \<open>The loop, run downwards from index \<open>k - 1\<close>, adds the row-major index of the first \<open>k\<close> components.\<close>

lemma flatten_loop_down:
  "k \<le> length sh \<Longrightarrow> k \<le> length c \<Longrightarrow>
   flatten_loop sh c (rev [0..<k]) (fi, gp) =
     Inr (fi + gp * row_major (take k sh) (take k c), gp * prod_list (take k sh))"
proof (induction k arbitrary: fi gp)
  case 0
  then show ?case by simp
next
  case (Suc k)
  then have k: "k < length sh" "k < length c" by simp_all
  have "row_major (take (Suc k) sh) (take (Suc k) c) = row_major (take k sh) (take k c) * sh ! k + c ! k"
    using k by (simp add: take_Suc_conv_app_nth row_major_snoc)
  moreover have "prod_list (take (Suc k) sh) = prod_list (take k sh) * sh ! k"
    using k by (simp add: take_Suc_conv_app_nth)
  ultimately show ?case using Suc k by (simp add: algebra_simps)
qed

subsection \<open>Binary digits and drawn rows\<close>

lemma bin_digits_chars: "list_all (\<lambda>c. c = CHR ''0'' \<or> c = CHR ''1'') (bin_digits n)"
  by (induction n rule: bin_digits.induct) (subst bin_digits.simps, simp)

lemma bin_digits_not_Nil: "bin_digits n \<noteq> []"
  by (subst bin_digits.simps) simp

lemma length_bin_digits: "n < 2 ^ k \<Longrightarrow> 0 < k \<Longrightarrow> length (bin_digits n) \<le> k"
proof (induction n arbitrary: k rule: bin_digits.induct)
  case (1 n)
  show ?case
  proof (cases "n < 2")
    case True
    then show ?thesis using "1.prems" by (subst bin_digits.simps) simp
  next
    case False
    then obtain j where j: "k = Suc j" using "1.prems" by (cases k) auto
    have "j \<noteq> 0" using False "1.prems" j by (cases j) auto
    moreover have "n div 2 < 2 ^ j" using "1.prems" j by auto
    ultimately have "length (bin_digits (n div 2)) \<le> j" using "1.IH" False by simp
    then show ?thesis using False j by (subst bin_digits.simps) simp
  qed
qed

lemma bits_val_snoc: "bits_val (b @ [x]) = 2 * bits_val b + (if x then 1 else 0)"
  by (simp add: bits_val_def)

lemma bits_val_bin_digits: "bits_val (map (\<lambda>c. c = CHR ''1'') (bin_digits n)) = n"
proof (induction n rule: bin_digits.induct)
  case (1 n)
  show ?case
  proof (cases "n < 2")
    case True
    then have "n = 0 \<or> n = 1" by auto
    then show ?thesis by (subst bin_digits.simps) (auto simp: bits_val_def)
  next
    case False
    then show ?thesis using "1.IH"
      by (subst bin_digits.simps) (simp add: bits_val_snoc; presburger)
  qed
qed

lemma bits_val_zeros_append: "bits_val (replicate k False @ b) = bits_val b"
  by (induction k) (simp_all add: bits_val_def)

lemma bits_val_ones: "bits_val (replicate k True) = 2 ^ k - 1"
proof (induction k)
  case 0
  then show ?case by (simp add: bits_val_def)
next
  case (Suc k)
  obtain m :: nat where m: "2 ^ k = Suc m"
    by (metis not0_implies_Suc power_not_zero zero_neq_numeral)
  have "replicate (Suc k) True = replicate k True @ [True]"
    by (simp add: replicate_append_same)
  then have "bits_val (replicate (Suc k) True) = 2 * bits_val (replicate k True) + 1"
    by (simp only: bits_val_snoc) simp
  then show ?case using Suc m by simp
qed

lemma drop_bin: "0 \<le> v \<Longrightarrow> drop 2 (bin v) = bin_digits (nat v)"
  by (simp add: bin_def)

lemma zfill_bin_digits:
  "zfill (bin_digits m) n = replicate (nat (n - int (length (bin_digits m)))) (CHR ''0'') @ bin_digits m"
proof -
  obtain c t where ct: "bin_digits m = c # t" using bin_digits_not_Nil by (cases "bin_digits m") auto
  have "list_all (\<lambda>c. c = CHR ''0'' \<or> c = CHR ''1'') (c # t)" using bin_digits_chars [of m] ct by simp
  then have "c \<noteq> CHR ''+''" "c \<noteq> CHR ''-''" by auto
  then show ?thesis using ct by (simp add: zfill_def Let_def)
qed

lemma zfill_chars:
  "list_all (\<lambda>c. c = CHR ''0'' \<or> c = CHR ''1'') (zfill (bin_digits m) n)"
proof -
  have "list_all (\<lambda>c. c = CHR ''0'' \<or> c = CHR ''1'') (replicate k (CHR ''0''))" for k
    by (induction k) simp_all
  then show ?thesis
    using bin_digits_chars [of m] by (simp only: zfill_bin_digits list_all_append) 
qed

lemma bitarray_of_str_zfill:
  "0 \<le> v \<Longrightarrow> bitarray_of_str (zfill (drop 2 (bin v)) n) = Inr (row_of n v)"
  using zfill_chars [of "nat v" n]
  by (simp add: bitarray_of_str_def row_of_def drop_bin)

lemma row_of_val: "0 \<le> v \<Longrightarrow> bits_val (row_of n v) = nat v"
  by (simp add: row_of_def drop_bin zfill_bin_digits bits_val_zeros_append bits_val_bin_digits)

lemma length_row_of: "0 \<le> v \<Longrightarrow> v < 2 ^ nat n \<Longrightarrow> 1 \<le> n \<Longrightarrow> int (length (row_of n v)) = n"
proof -
  assume v: "0 \<le> v" "v < 2 ^ nat n" and n: "1 \<le> n"
  have "nat v < 2 ^ nat n" using v by (simp add: nat_less_iff)
  then have "length (bin_digits (nat v)) \<le> nat n" using n by (intro length_bin_digits) auto
  then have "int (length (bin_digits (nat v))) \<le> n" using n by linarith
  then show ?thesis using v by (simp add: row_of_def drop_bin zfill_bin_digits)
qed

lemma random_row_Some:
  "0 < m \<Longrightarrow> random_row (Some m) n g h =
     Inr (nrows h, g \<circ> Suc,
          h\<lparr>rows := (rows h)(nrows h := row_of n (int (g 0) mod m)), nrows := Suc (nrows h)\<rparr>)"
  by (simp add: random_row_def gen_def randrange_def bitarray_of_str_zfill new_bitarray_def)

lemma random_row_empty_range: "m \<le> 0 \<Longrightarrow> random_row (Some m) n g h = Inl ValueError"
  by (simp add: random_row_def gen_def randrange_def)

lemma random_row_None: "random_row None n g h = Inl ValueError"
  by (simp add: random_row_def gen_def randrange_def)

subsection \<open>The loops that assign rows\<close>

lemma filled_0: "filled a m 0 f h = h"
  by (auto simp add: filled_def fun_eq_iff intro!: heap.equality)

lemma filled_Suc:
  "filled a m (Suc k) f h =
   filled a (Suc m) k (\<lambda>j. f (Suc j))
     (flat_set a m (nrows h) (h\<lparr>rows := (rows h)(nrows h := f 0), nrows := Suc (nrows h)\<rparr>))"
proof -
  have "f (x - nrows h) = f (Suc (x - Suc (nrows h)))" if "nrows h < x" for x
    using that by (simp add: Suc_diff_Suc)
  then show ?thesis
    by (auto simp add: filled_def flat_set_def fun_eq_iff intro!: heap.equality)
qed

lemma upt_add_Suc: "[m..<m + Suc k] = m # [Suc m..<Suc m + k]"
  by (simp add: upt_conv_Cons del: upt_Suc)

lemma init_loop_filled:
  "init_loop a n [m..<m + k] h = filled a m k (\<lambda>j. replicate (nat n) False) h"
proof (induction k arbitrary: m h)
  case 0
  then show ?case by (simp add: filled_0)
next
  case (Suc k)
  show ?case
    by (simp only: upt_add_Suc init_loop.simps new_bitarray_def prod.case Suc filled_Suc)
qed

lemma randomize_loop_filled:
  "0 < mx \<Longrightarrow>
   randomize_loop a (Some mx) n [m..<m + k] g h =
     Inr (\<lambda>j. g (j + k), filled a m k (\<lambda>j. row_of n (int (g j) mod mx)) h)"
proof (induction k arbitrary: m h g)
  case 0
  then show ?case by (simp add: filled_0)
next
  case (Suc k)
  have "randomize_loop a (Some mx) n [m..<m + Suc k] g h =
        randomize_loop a (Some mx) n [Suc m..<Suc m + k] (g \<circ> Suc)
          (flat_set a m (nrows h)
             (h\<lparr>rows := (rows h)(nrows h := row_of n (int (g 0) mod mx)), nrows := Suc (nrows h)\<rparr>))"
    using Suc.prems
    by (simp only: upt_add_Suc randomize_loop.simps random_row_Some sum.case prod.case)
  also have "\<dots> = Inr (\<lambda>j. (g \<circ> Suc) (j + k),
       filled a (Suc m) k (\<lambda>j. row_of n (int ((g \<circ> Suc) j) mod mx))
         (flat_set a m (nrows h)
             (h\<lparr>rows := (rows h)(nrows h := row_of n (int (g 0) mod mx)), nrows := Suc (nrows h)\<rparr>)))"
    using Suc.prems by (rule Suc.IH)
  also have "\<dots> = Inr (\<lambda>j. g (j + Suc k), filled a m (Suc k) (\<lambda>j. row_of n (int (g j) mod mx)) h)"
    by (simp add: filled_Suc comp_def)
  finally show ?case .
qed

lemma randomize_loop_empty_range:
  "mx \<le> 0 \<Longrightarrow> ix \<noteq> [] \<Longrightarrow> randomize_loop a (Some mx) n ix g h = Inl ValueError"
  by (cases ix) (simp_all add: random_row_empty_range)

lemma randomize_loop_None:
  "ix \<noteq> [] \<Longrightarrow> randomize_loop a None n ix g h = Inl ValueError"
  by (cases ix) (simp_all add: random_row_None)

lemma filled_rows: "rows (filled a m k f h) r = (if nrows h \<le> r \<and> r < nrows h + k then f (r - nrows h) else rows h r)"
  by (simp add: filled_def)

lemma filled_cells: "cells (filled a m k f h) c = (if off a + m \<le> c \<and> c < off a + m + k then nrows h + (c - (off a + m)) else cells h c)"
  by (simp add: filled_def)

lemma filled_counts: "nrows (filled a m k f h) = nrows h + k" "ncells (filled a m k f h) = ncells h"
  by (simp_all add: filled_def)

text \<open>The row behind cell \<open>i\<close> of the array after the loop.\<close>

lemma filled_flat_row:
  "i < k \<Longrightarrow> rows (filled a 0 k f h) (flat_get (filled a 0 k f h) a i) = f i"
  by (simp add: flat_get_def filled_rows filled_cells)

subsection \<open>The loop over a sliced view\<close>

lemma str_filled_0: "str_filled s m 0 f h = h"
  by (auto simp add: str_filled_def fun_eq_iff intro!: heap.equality)

lemma str_filled_Suc:
  "str_filled s m (Suc k) f h =
   str_filled s (Suc m) k (\<lambda>j. f (Suc j))
     (str_set s m (nrows h) (h\<lparr>rows := (rows h)(nrows h := f 0), nrows := Suc (nrows h)\<rparr>))"
proof -
  have r: "f (x - nrows h) = f (Suc (x - Suc (nrows h)))" if "nrows h < x" for x
    using that by (simp add: Suc_diff_Suc)
  have c: "fold (\<lambda>i cs. cs(str_flat s i := nrows h + (i - m))) [Suc m..<Suc m + k] c0 =
           fold (\<lambda>i cs. cs(str_flat s i := Suc (nrows h) + (i - Suc m))) [Suc m..<Suc m + k] c0" for c0
    by (rule fold_cong) (auto simp add: fun_eq_iff)
  have "fold (\<lambda>i cs. cs(str_flat s i := nrows h + (i - m))) [m..<m + Suc k] (cells h) =
        fold (\<lambda>i cs. cs(str_flat s i := Suc (nrows h) + (i - Suc m))) [Suc m..<Suc m + k]
          ((cells h)(str_flat s m := nrows h))"
    by (simp only: upt_add_Suc fold_simps c) simp
  then show ?thesis using r
    by (auto simp add: str_filled_def str_set_def fun_eq_iff intro!: heap.equality)
qed

lemma randomize_loop_str_filled:
  "0 < mx \<Longrightarrow>
   randomize_loop_str s (Some mx) n [m..<m + k] g h =
     Inr (\<lambda>j. g (j + k), str_filled s m k (\<lambda>j. row_of n (int (g j) mod mx)) h)"
proof (induction k arbitrary: m h g)
  case 0
  then show ?case by (simp add: str_filled_0)
next
  case (Suc k)
  have "randomize_loop_str s (Some mx) n [m..<m + Suc k] g h =
        randomize_loop_str s (Some mx) n [Suc m..<Suc m + k] (g \<circ> Suc)
          (str_set s m (nrows h)
             (h\<lparr>rows := (rows h)(nrows h := row_of n (int (g 0) mod mx)), nrows := Suc (nrows h)\<rparr>))"
    using Suc.prems
    by (simp only: upt_add_Suc randomize_loop_str.simps random_row_Some sum.case prod.case)
  also have "\<dots> = Inr (\<lambda>j. (g \<circ> Suc) (j + k),
       str_filled s (Suc m) k (\<lambda>j. row_of n (int ((g \<circ> Suc) j) mod mx))
         (str_set s m (nrows h)
             (h\<lparr>rows := (rows h)(nrows h := row_of n (int (g 0) mod mx)), nrows := Suc (nrows h)\<rparr>)))"
    using Suc.prems by (rule Suc.IH)
  also have "\<dots> = Inr (\<lambda>j. g (j + Suc k), str_filled s m (Suc k) (\<lambda>j. row_of n (int (g j) mod mx)) h)"
    by (simp add: str_filled_Suc comp_def)
  finally show ?case .
qed

lemma randomize_loop_str_empty_range:
  "mx \<le> 0 \<Longrightarrow> ix \<noteq> [] \<Longrightarrow> randomize_loop_str s (Some mx) n ix g h = Inl ValueError"
  by (cases ix) (simp_all add: random_row_empty_range)

lemma randomize_loop_str_None:
  "ix \<noteq> [] \<Longrightarrow> randomize_loop_str s None n ix g h = Inl ValueError"
  by (cases ix) (simp_all add: random_row_None)

lemma fold_upd_other:
  "c \<notin> addr ` set xs \<Longrightarrow> fold (\<lambda>i cs. cs(addr i := v i)) xs cs0 c = cs0 c"
  by (induction xs arbitrary: cs0) auto

lemma fold_upd_inj:
  "inj_on addr (set xs) \<Longrightarrow> distinct xs \<Longrightarrow> j \<in> set xs \<Longrightarrow>
   fold (\<lambda>i cs. cs(addr i := v i)) xs cs0 (addr j) = v j"
proof (induction xs arbitrary: cs0)
  case Nil
  then show ?case by simp
next
  case (Cons x xs)
  show ?case
  proof (cases "j = x")
    case True
    have "addr x \<notin> addr ` set xs" using Cons.prems by (auto simp add: inj_on_def)
    then have "fold (\<lambda>i cs. cs(addr i := v i)) xs (cs0(addr x := v x)) (addr x) =
               (cs0(addr x := v x)) (addr x)"
      by (rule fold_upd_other)
    then show ?thesis using True by (simp only: fold_simps fun_upd_same)
  next
    case False
    then have "fold (\<lambda>i cs. cs(addr i := v i)) xs (cs0(addr x := v x)) (addr j) = v j"
      using Cons.prems by (intro Cons.IH) (simp_all add: inj_on_def)
    then show ?thesis by (simp only: fold_simps)
  qed
qed

lemma div_mult_add_less: "r < S \<Longrightarrow> (a * S + r) div S = (a::nat)"
  by simp

lemma str_flat_inj: "inj_on (str_flat s) {..<str_size s}"
proof (rule inj_onI)
  fix i j
  assume i: "i \<in> {..<str_size s}" and j: "j \<in> {..<str_size s}" and e: "str_flat s i = str_flat s j"
  define B where "B = str_blk s"
  define S where "S = Suc (skip s) * B"
  define pos where "pos = (\<lambda>k. if reversed s then str_count s - 1 - k else k)"
  have B: "0 < B" using i by (cases "B = 0") (simp_all add: str_size_def B_def)
  have qi: "i div B < str_count s" using i B by (simp add: str_size_def B_def less_mult_imp_div_less)
  have qj: "j div B < str_count s" using j B by (simp add: str_size_def B_def less_mult_imp_div_less)
  have BS: "B \<le> S" by (simp add: S_def)
  have ri: "i mod B < S" using B BS by (meson less_le_trans mod_less_divisor)
  have rj: "j mod B < S" using B BS by (meson less_le_trans mod_less_divisor)
  from e have e': "pos (i div B) * S + i mod B = pos (j div B) * S + j mod B"
    by (simp add: str_flat_def str_block_def pos_def S_def B_def)
  have "(pos (i div B) * S + i mod B) div S = pos (i div B)" using ri by (rule div_mult_add_less)
  moreover have "(pos (j div B) * S + j mod B) div S = pos (j div B)" using rj by (rule div_mult_add_less)
  ultimately have p: "pos (i div B) = pos (j div B)" using e' by metis
  then have q: "i div B = j div B" using qi qj by (auto simp add: pos_def split: if_splits)
  then have "i mod B = j mod B" using e' p by simp
  then show "i = j" using q by (metis div_mult_mod_eq)
qed

lemma str_filled_rows: "rows (str_filled s m k f h) r = (if nrows h \<le> r \<and> r < nrows h + k then f (r - nrows h) else rows h r)"
  by (simp add: str_filled_def)

lemma str_filled_counts: "nrows (str_filled s m k f h) = nrows h + k" "ncells (str_filled s m k f h) = ncells h"
  by (simp_all add: str_filled_def)

lemma str_filled_cells:
  assumes "i < k" and "k \<le> str_size s"
  shows "cells (str_filled s 0 k f h) (str_flat s i) = nrows h + i"
proof -
  have "inj_on (str_flat s) (set [0..<0 + k])"
    using str_flat_inj [of s] assms(2) by (auto simp add: inj_on_def)
  moreover have "distinct [0..<0 + k]" by simp
  moreover have "i \<in> set [0..<0 + k]" using assms(1) by simp
  ultimately have "fold (\<lambda>i cs. cs(str_flat s i := nrows h + (i - 0))) [0..<0 + k] (cells h) (str_flat s i)
        = nrows h + (i - 0)"
    by (rule fold_upd_inj)
  then show ?thesis by (simp add: str_filled_def)
qed

lemma str_filled_cells_other:
  "c \<notin> str_flat s ` {m..<m + k} \<Longrightarrow> cells (str_filled s m k f h) c = cells h c"
  using fold_upd_other [of c "str_flat s" "[m..<m + k]"] by (simp add: str_filled_def)

lemma str_filled_flat_row:
  "i < k \<Longrightarrow> k \<le> str_size s \<Longrightarrow> rows (str_filled s 0 k f h) (str_get (str_filled s 0 k f h) s i) = f i"
  by (simp add: str_get_def str_filled_rows str_filled_cells)

subsection \<open>Construction and randomization in closed form\<close>

lemma Plane_init_one_dim:
  "Plane_init [n] None h =
     Inr (\<lparr>grid = Row (nrows h), shape = [n], N = n\<rparr>,
          h\<lparr>rows := (rows h)(nrows h := replicate (nat n) False), nrows := Suc (nrows h)\<rparr>)"
  by (simp add: Plane_init_def new_bitarray_def)

lemma np_empty_allocatable:
  "np_empty ds h =
     (if np_allocatable ds
      then Inr (\<lparr>off = ncells h, dims = ds\<rparr>, h\<lparr>ncells := ncells h + nat (prod_list ds)\<rparr>)
      else Inl ValueError)"
  by (fastforce simp add: np_empty_def np_allocatable_def list_all_iff list_ex_iff not_less)

lemma Plane_init_nd:
  "length sh \<noteq> 1 \<Longrightarrow> np_allocatable (butlast sh) \<Longrightarrow>
   Plane_init sh None h =
     Inr (\<lparr>grid = Arr \<lparr>off = ncells h, dims = butlast sh\<rparr>, shape = sh,
            N = (if sh = [] then 0 else last sh)\<rparr>,
          filled \<lparr>off = ncells h, dims = butlast sh\<rparr> 0 (nat (prod_list (butlast sh)))
            (\<lambda>j. replicate (nat (if sh = [] then 0 else last sh)) False)
            (h\<lparr>ncells := ncells h + nat (prod_list (butlast sh))\<rparr>))"
  using init_loop_filled [of _ _ 0]
  by (simp add: Plane_init_def np_empty_allocatable nd_size_def Let_def)

lemma Plane_init_not_allocatable:
  "length sh \<noteq> 1 \<Longrightarrow> \<not> np_allocatable (butlast sh) \<Longrightarrow> Plane_init sh None h = Inl ValueError"
  by (simp add: Plane_init_def np_empty_allocatable)

lemma Plane_init_nd_Inr:
  assumes "length sh \<noteq> 1" and "Plane_init sh None h = Inr (p, h')"
  shows "np_allocatable (butlast sh)"
    and "p = \<lparr>grid = Arr \<lparr>off = ncells h, dims = butlast sh\<rparr>, shape = sh,
               N = (if sh = [] then 0 else last sh)\<rparr>"
    and "h' = filled \<lparr>off = ncells h, dims = butlast sh\<rparr> 0 (nat (prod_list (butlast sh)))
            (\<lambda>j. replicate (nat (if sh = [] then 0 else last sh)) False)
            (h\<lparr>ncells := ncells h + nat (prod_list (butlast sh))\<rparr>)"
proof -
  show a: "np_allocatable (butlast sh)"
    using assms Plane_init_not_allocatable [of sh h] by (cases "np_allocatable (butlast sh)") auto
  show "p = \<lparr>grid = Arr \<lparr>off = ncells h, dims = butlast sh\<rparr>, shape = sh,
               N = (if sh = [] then 0 else last sh)\<rparr>"
    using assms Plane_init_nd [OF assms(1) a, of h] by simp
  show "h' = filled \<lparr>off = ncells h, dims = butlast sh\<rparr> 0 (nat (prod_list (butlast sh)))
            (\<lambda>j. replicate (nat (if sh = [] then 0 else last sh)) False)
            (h\<lparr>ncells := ncells h + nat (prod_list (butlast sh))\<rparr>)"
    using assms Plane_init_nd [OF assms(1) a, of h] by simp
qed

lemmas np_limits = np_allocatable_def npy_maxdims_def npy_max_intp_def

text \<open>Small dimensions are within the limits.\<close>

lemma np_allocatable_small:
  "length ds \<le> 32 \<Longrightarrow> list_all (\<lambda>d. 0 \<le> d) ds \<Longrightarrow>
   prod_list (filter (\<lambda>d. d \<noteq> 0) ds) \<le> 1152921504606846975 \<Longrightarrow> np_allocatable ds"
  by (simp add: np_allocatable_def npy_maxdims_def npy_max_intp_def)

lemma Plane_init_Some:
  "Plane_init sh (Some g) h = Inr (\<lparr>grid = g, shape = sh, N = (if sh = [] then 0 else last sh)\<rparr>, h)"
  by (simp add: Plane_init_def)

lemmas heap_reads = filled_rows filled_cells filled_counts flat_get_def

lemma max_u_pos: "1 \<le> n \<Longrightarrow> max_u n = Some (2 ^ nat n - 1) \<and> (0::int) < 2 ^ nat n - 1"
proof -
  assume n: "1 \<le> n"
  then obtain k where k: "nat n = Suc k" by (cases "nat n") auto
  have "(1::int) \<le> 2 ^ k" by simp
  then have "(1::int) < 2 * 2 ^ k" by linarith
  then show ?thesis using n k by (simp add: max_u_def)
qed

lemma max_u_zero: "max_u 0 = Some 0"
  by (simp add: max_u_def)

lemma randomize_one_dim:
  "length (shape q) = 1 \<Longrightarrow> 1 \<le> N q \<Longrightarrow>
   randomize q g h =
     Inr (q\<lparr>grid := Row (nrows h)\<rparr>, g \<circ> Suc,
          h\<lparr>rows := (rows h)(nrows h := row_of (N q) (int (g 0) mod (2 ^ nat (N q) - 1))),
            nrows := Suc (nrows h)\<rparr>)"
  using max_u_pos [of "N q"] by (simp add: randomize_def random_row_Some)

lemma randomize_nd:
  "1 < length (shape q) \<Longrightarrow> grid q = Arr a \<Longrightarrow> 1 \<le> N q \<Longrightarrow>
   randomize q g h =
     Inr (q, \<lambda>j. g (j + nd_size a),
          filled a 0 (nd_size a) (\<lambda>j. row_of (N q) (int (g j) mod (2 ^ nat (N q) - 1))) h)"
  using max_u_pos [of "N q"] randomize_loop_filled [of "2 ^ nat (N q) - 1" a "N q" 0 "nd_size a" g h]
  by (cases "shape q") (simp_all add: randomize_def)

lemma randomize_str:
  "1 < length (shape q) \<Longrightarrow> grid q = Str s \<Longrightarrow> 1 \<le> N q \<Longrightarrow>
   randomize q g h =
     Inr (q, \<lambda>j. g (j + str_size s),
          str_filled s 0 (str_size s) (\<lambda>j. row_of (N q) (int (g j) mod (2 ^ nat (N q) - 1))) h)"
  using max_u_pos [of "N q"]
    randomize_loop_str_filled [of "2 ^ nat (N q) - 1" s "N q" 0 "str_size s" g h]
  by (cases "shape q") (simp_all add: randomize_def)

lemma randomize_nonpositive_width:
  "shape q \<noteq> [] \<Longrightarrow> N q \<le> 0 \<Longrightarrow>
   randomize q g h =
     (if length (shape q) = 1 then Inl ValueError
      else case grid q of
             Arr a \<Rightarrow> if nd_size a = 0 then Inr (q, g, h) else Inl ValueError
           | Str s \<Rightarrow> if str_size s = 0 then Inr (q, g, h) else Inl ValueError
           | Row r \<Rightarrow> Inl AttributeError
           | Bit b \<Rightarrow> Inl AttributeError)"
proof -
  assume s: "shape q \<noteq> []" and n: "N q \<le> 0"
  have mu: "max_u (N q) = None \<or> max_u (N q) = Some 0"
    using n by (cases "N q = 0") (simp_all add: max_u_def)
  have rr: "random_row (max_u (N q)) n' g' h' = Inl ValueError" for n' g' h'
    using mu by (auto simp add: random_row_None random_row_empty_range)
  have rl: "randomize_loop a (max_u (N q)) n' [0..<k] g h = (if k = 0 then Inr (g, h) else Inl ValueError)" for a n' k
    using mu by (cases k) (auto simp add: upt_conv_Cons rr simp del: upt_Suc)
  have rs: "randomize_loop_str a (max_u (N q)) n' [0..<k] g h = (if k = 0 then Inr (g, h) else Inl ValueError)" for a n' k
    using mu by (cases k) (auto simp add: upt_conv_Cons rr simp del: upt_Suc)
  show ?thesis using s by (simp add: randomize_def rr rl rs split: obj.splits)
qed

text \<open>Width of the rows made by a draw.\<close>

lemma row_of_mod:
  assumes "1 \<le> n"
  shows "int (length (row_of n (int x mod (2 ^ nat n - 1)))) = n"
    and "int (bits_val (row_of n (int x mod (2 ^ nat n - 1)))) = int x mod (2 ^ nat n - 1)"
    and "int (bits_val (row_of n (int x mod (2 ^ nat n - 1)))) < 2 ^ nat n - 1"
    and "row_of n (int x mod (2 ^ nat n - 1)) \<noteq> replicate (nat n) True"
proof -
  let ?m = "(2::int) ^ nat n - 1"
  let ?v = "int x mod ?m"
  have m: "0 < ?m" using max_u_pos [OF assms] by simp
  then have v: "0 \<le> ?v" "?v < ?m" by simp_all
  then have v2: "?v < 2 ^ nat n" by linarith
  show "int (length (row_of n ?v)) = n" using v(1) v2 assms by (rule length_row_of)
  show val: "int (bits_val (row_of n ?v)) = ?v" using v(1) by (simp add: row_of_val)
  show "int (bits_val (row_of n ?v)) < ?m" using val v(2) by simp
  show "row_of n ?v \<noteq> replicate (nat n) True"
  proof
    assume "row_of n ?v = replicate (nat n) True"
    then have "int (bits_val (row_of n ?v)) = int (bits_val (replicate (nat n) True))" by simp
    also have "\<dots> = ?m" by (simp add: bits_val_ones of_nat_diff)
    finally show False using val v(2) by simp
  qed
qed

lemma plane_rows_filled:
  "grid p = Arr a \<Longrightarrow> k = nd_size a \<Longrightarrow> plane_rows (filled a 0 k f h) p = map f [0..<k]"
  by (simp add: plane_rows_def filled_flat_row)

lemma plane_rows_str_filled:
  "grid p = Str s \<Longrightarrow> k = str_size s \<Longrightarrow> plane_rows (str_filled s 0 k f h) p = map f [0..<k]"
  by (simp add: plane_rows_def str_filled_flat_row)

lemma randomize_rows:
  assumes "shape q \<noteq> []" and "1 \<le> N q" and "randomize q g h = Inr (q', g', h')"
  shows "shape q' = shape q \<and> N q' = N q \<and>
         plane_rows h' q' =
           map (\<lambda>j. row_of (N q) (int (g j) mod (2 ^ nat (N q) - 1))) [0..<length (plane_rows h' q')]"
proof (cases "length (shape q) = 1")
  case True
  then show ?thesis using assms by (auto simp add: randomize_one_dim plane_rows_def)
next
  case False
  then have l: "1 < length (shape q)" using assms(1) by (cases "shape q") auto
  show ?thesis
  proof (cases "grid q")
    case (Arr a)
    then show ?thesis using assms l randomize_nd [of q a g h]
      by (auto simp add: plane_rows_filled)
  next
    case (Str s)
    then show ?thesis using assms l randomize_str [of q s g h]
      by (auto simp add: plane_rows_str_filled)
  next
    case (Row r)
    then show ?thesis using assms l by (simp add: randomize_def)
  next
    case (Bit b)
    then show ?thesis using assms l by (simp add: randomize_def)
  qed
qed

lemma randomize_rows_nonpositive:
  assumes "shape q \<noteq> []" and "N q \<le> 0" and "randomize q g h = Inr (q', g', h')"
  shows "q' = q \<and> plane_rows h' q' = []"
  using assms randomize_nonpositive_width [of q g h]
  by (auto simp add: plane_rows_def split: if_splits obj.splits)

lemma randomize_example:
  "randomize \<lparr>grid = Row 0, shape = [3], N = 3\<rparr> (\<lambda>k. 5) heap0 =
     Inr (\<lparr>grid = Row 0, shape = [3], N = 3\<rparr>, \<lambda>k. 5,
          heap0\<lparr>rows := (rows heap0)(0 := [True, False, True]), nrows := 1\<rparr>)"
proof -
  have "row_of 3 5 = [True, False, True]" by code_simp
  then show ?thesis by (simp add: randomize_one_dim heap0_def comp_def)
qed

subsection \<open>Rows and references of a plane\<close>

lemma plane_rows_refs: "plane_rows h p = map (rows h) (plane_refs h p)"
  by (simp add: plane_rows_def plane_refs_def split: obj.splits)

lemma plane_refs_filled:
  "grid p = Arr a \<Longrightarrow> k = nd_size a \<Longrightarrow> plane_refs (filled a 0 k f h) p = [nrows h..<nrows h + k]"
proof -
  assume g: "grid p = Arr a" and k: "k = nd_size a"
  have "map (flat_get (filled a 0 k f h) a) [0..<k] = map (\<lambda>i. nrows h + i) [0..<k]"
    by (simp add: flat_get_def filled_cells)
  also have "\<dots> = [nrows h..<nrows h + k]" by (simp add: map_add_upt add.commute)
  finally show ?thesis using g k by (simp add: plane_refs_def)
qed

lemma plane_refs_str_filled:
  "grid p = Str s \<Longrightarrow> k = str_size s \<Longrightarrow> plane_refs (str_filled s 0 k f h) p = [nrows h..<nrows h + k]"
proof -
  assume g: "grid p = Str s" and k: "k = str_size s"
  have "map (str_get (str_filled s 0 k f h) s) [0..<k] = map (\<lambda>i. nrows h + i) [0..<k]"
    using k by (simp add: str_get_def str_filled_cells)
  also have "\<dots> = [nrows h..<nrows h + k]" by (simp add: map_add_upt add.commute)
  finally show ?thesis using g k by (simp add: plane_refs_def)
qed

lemma hd_bin_digits: "1 \<le> n \<Longrightarrow> hd (bin_digits n) = CHR ''1''"
proof (induction n rule: bin_digits.induct)
  case (1 n)
  show ?case
  proof (cases "n < 2")
    case True
    then have "n = 1" using "1.prems" by simp
    then show ?thesis by (subst bin_digits.simps) simp
  next
    case False
    then have "hd (bin_digits (n div 2)) = CHR ''1''" using "1.IH" by simp
    then show ?thesis using False bin_digits_not_Nil [of "n div 2"]
      by (subst bin_digits.simps) simp
  qed
qed

lemma natural_binary_bin_digits:
  "natural_binary n (map (\<lambda>c. c = CHR ''1'') (bin_digits n))"
proof (cases "n = 0")
  case True
  have "bin_digits 0 = [CHR ''0'']" by (subst bin_digits.simps) simp
  then show ?thesis using True by (simp add: natural_binary_def bits_val_def)
next
  case False
  then have h: "hd (bin_digits n) = CHR ''1''" by (intro hd_bin_digits) simp
  obtain c t where ct: "bin_digits n = c # t" using bin_digits_not_Nil by (cases "bin_digits n") auto
  then show ?thesis using h bits_val_bin_digits [of n] by (simp add: natural_binary_def)
qed

text \<open>A drawn row is the binary representation of the value, with zero bits on the left.\<close>

lemma row_of_left_padded:
  assumes "0 \<le> v"
  shows "\<exists>d. natural_binary (nat v) d
           \<and> row_of n v = replicate (length (row_of n v) - length d) False @ d"
proof -
  let ?d = "map (\<lambda>c. c = CHR ''1'') (bin_digits (nat v))"
  have "row_of n v = replicate (nat (n - int (length (bin_digits (nat v))))) False @ ?d"
    using assms by (simp add: row_of_def drop_bin zfill_bin_digits)
  then have "row_of n v = replicate (length (row_of n v) - length ?d) False @ ?d"
    by simp
  then show ?thesis using natural_binary_bin_digits [of "nat v"] by blast
qed

subsection \<open>Resolving indices\<close>

lemma norm_index_error: "norm_index d i = Inl e \<Longrightarrow> e = IndexError"
  by (simp add: norm_index_def split: if_splits)

lemma norm_index_Inr: "- d \<le> i \<Longrightarrow> i < d \<Longrightarrow> norm_index d i = Inr (nat (if i < 0 then i + d else i))"
  by (simp add: norm_index_def)

lemma norm_index_Inl: "\<not> (- d \<le> i \<and> i < d) \<Longrightarrow> norm_index d i = Inl IndexError"
  by (auto simp add: norm_index_def)

lemma norm_index_less: "norm_index d i = Inr k \<Longrightarrow> int k < d"
  by (auto simp add: norm_index_def split: if_splits)

lemma nd_resolve_out: "\<not> in_bounds ds ix \<Longrightarrow> nd_resolve ds ix = Inl IndexError"
proof (induction ds ix rule: nd_resolve.induct)
  case (3 d ds i ix)
  show ?case
  proof (cases "- d \<le> i \<and> i < d")
    case True
    then show ?thesis using 3 by (simp add: norm_index_Inr)
  next
    case False
    then show ?thesis by (simp add: norm_index_Inl)
  qed
qed simp_all

lemma nd_resolve_in:
  "in_bounds ds ix \<Longrightarrow> \<exists>k. nd_resolve ds ix = Inr (k, drop (length ix) ds)"
proof (induction ds ix rule: nd_resolve.induct)
  case (3 d ds i ix)
  then have n: "norm_index d i = Inr (nat (if i < 0 then i + d else i))"
    by (simp add: norm_index_Inr)
  then obtain k where "nd_resolve ds ix = Inr (k, drop (length ix) ds)"
    using "3.IH" "3.prems" by auto
  then show ?case using n by simp
qed simp_all

lemma nd_resolve_Inr:
  "nd_resolve ds ix = Inr (k, rest) \<Longrightarrow>
     in_bounds ds ix \<and> rest = drop (length ix) ds \<and> length ix \<le> length ds"
proof -
  assume a: "nd_resolve ds ix = Inr (k, rest)"
  then have ib: "in_bounds ds ix" using nd_resolve_out [of ds ix] by auto
  have "length ix \<le> length ds" using ib
    by (induction ds ix rule: in_bounds.induct) simp_all
  then show ?thesis using a ib nd_resolve_in [of ds ix] by auto
qed

text \<open>Resolving a tuple in two steps adds the offsets.\<close>

lemma nd_resolve_append:
  "nd_resolve ds ix = Inr (k, rest) \<Longrightarrow>
   nd_resolve ds (ix @ js) =
     (case nd_resolve rest js of Inl e \<Rightarrow> Inl e | Inr (k', rest') \<Rightarrow> Inr (k + k', rest'))"
proof (induction ds ix arbitrary: k rule: nd_resolve.induct)
  case (1 ds)
  then show ?case by (auto split: sum.splits)
next
  case (2 i ix)
  then show ?case by simp
next
  case (3 d ds i ix)
  from "3.prems" obtain k1 k2 where
    k: "norm_index d i = Inr k1" "nd_resolve ds ix = Inr (k2, rest)" "k = k1 * nat (prod_list ds) + k2"
    by (auto split: sum.splits)
  have "nd_resolve ds (ix @ js) =
     (case nd_resolve rest js of Inl e \<Rightarrow> Inl e | Inr (k', rest') \<Rightarrow> Inr (k2 + k', rest'))"
    using k(1,2) by (rule "3.IH")
  then show ?case using k by (simp split: sum.splits)
qed

text \<open>A full index addresses a cell of the array.\<close>

lemma nd_resolve_full_less:
  "nd_resolve ds ix = Inr (k, []) \<Longrightarrow> length ix = length ds \<Longrightarrow> k < nat (prod_list ds)"
proof (induction ds ix arbitrary: k rule: nd_resolve.induct)
  case (3 d ds i ix)
  from "3.prems" obtain k1 k2 where
    k: "norm_index d i = Inr k1" "nd_resolve ds ix = Inr (k2, [])" "k = k1 * nat (prod_list ds) + k2"
    by (auto split: sum.splits)
  then have k2: "k2 < nat (prod_list ds)" using "3.IH" "3.prems" by simp
  have k1: "int k1 < d" using k(1) by (rule norm_index_less)
  then have d: "0 < d" by linarith
  have p: "0 < prod_list ds" using k2 by simp
  have "k1 * nat (prod_list ds) + k2 < (k1 + 1) * nat (prod_list ds)" using k2 by simp
  also have "\<dots> \<le> nat d * nat (prod_list ds)" using k1 by (intro mult_right_mono) auto
  also have "\<dots> = nat (d * prod_list ds)" using d by (simp add: nat_mult_distrib)
  finally show ?case using k(3) by simp
qed simp_all

lemma nd_getitem_append:
  "nd_resolve (dims a) ix = Inr (k, rest) \<Longrightarrow>
   nd_getitem h a (ix @ js) = nd_getitem h \<lparr>off = off a + k, dims = rest\<rparr> js"
proof -
  assume r: "nd_resolve (dims a) ix = Inr (k, rest)"
  then have l: "rest = drop (length ix) (dims a)" "length ix \<le> length (dims a)"
    using nd_resolve_Inr by auto
  then have "length (ix @ js) = length (dims a) \<longleftrightarrow> length js = length rest" by auto
  then show ?thesis
    using nd_resolve_append [OF r, of js]
    by (auto simp add: nd_getitem_def flat_get_def add.assoc split: sum.splits)
qed

subsection \<open>Slices\<close>

lemma int_le_div_mult: "0 < m \<Longrightarrow> k \<le> q div m \<Longrightarrow> m * k \<le> (q::int)"
proof -
  assume m: "0 < m" and k: "k \<le> q div m"
  have "m * k \<le> m * (q div m)" using m k by (simp add: mult_left_mono)
  also have "\<dots> \<le> q" using m by (metis mult.commute div_mult_mod_eq add.commute pos_mod_sign le_add_same_cancel2 le_add_same_cancel1)
  finally show ?thesis .
qed

lemma slice_clip_bounds:
  "lower \<le> dflt \<Longrightarrow> dflt \<le> upper \<Longrightarrow> lower \<le> 0 \<Longrightarrow> n - 1 \<le> upper \<Longrightarrow>
   lower \<le> slice_clip n lower upper x dflt \<and> slice_clip n lower upper x dflt \<le> upper"
  by (auto simp add: slice_clip_def split: option.splits)

lemma slice_adjust_bounds:
  assumes "slice_adjust a b st n = (s0, stp, cnt)" and "st \<noteq> 0" and "0 \<le> n" and "k < cnt"
  shows "0 \<le> s0 + stp * int k \<and> s0 + stp * int k < n"
proof (cases "st < 0")
  case True
  define e where "e = slice_clip n (- 1) (n - 1) b (- 1)"
  define s where "s = slice_clip n (- 1) (n - 1) a (n - 1)"
  have r: "s0 = s" "stp = st" "cnt = nat (if e < s then (s - e - 1) div (- st) + 1 else 0)"
    using assms(1) True by (auto simp add: slice_adjust_def Let_def s_def e_def)
  have sb: "- 1 \<le> s \<and> s \<le> n - 1" unfolding s_def using assms(3) by (intro slice_clip_bounds) simp_all
  have eb: "- 1 \<le> e \<and> e \<le> n - 1" unfolding e_def using assms(3) by (intro slice_clip_bounds) simp_all
  have c: "e < s" "int k \<le> (s - e - 1) div (- st)"
    using r(3) assms(4) by (auto split: if_splits)
  have "(- st) * int k \<le> s - e - 1" using True c(2) by (intro int_le_div_mult) simp_all
  then have "e + 1 \<le> s + st * int k" by simp
  moreover have "st * int k \<le> 0" using True by (simp add: mult_le_0_iff)
  ultimately show ?thesis using eb sb r by simp
next
  case False
  then have p: "0 < st" using assms(2) by simp
  define e where "e = slice_clip n 0 n b n"
  define s where "s = slice_clip n 0 n a 0"
  have r: "s0 = s" "stp = st" "cnt = nat (if s < e then (e - s - 1) div st + 1 else 0)"
    using assms(1) False by (auto simp add: slice_adjust_def Let_def s_def e_def)
  have sb: "0 \<le> s \<and> s \<le> n" unfolding s_def using assms(3) by (intro slice_clip_bounds) simp_all
  have eb: "0 \<le> e \<and> e \<le> n" unfolding e_def using assms(3) by (intro slice_clip_bounds) simp_all
  have c: "s < e" "int k \<le> (e - s - 1) div st"
    using r(3) assms(4) by (auto split: if_splits)
  have "st * int k \<le> e - s - 1" using p c(2) by (intro int_le_div_mult) simp_all
  moreover have "0 \<le> st * int k" using p by simp
  ultimately show ?thesis using eb sb r by simp
qed

lemma slice_indices_Inr:
  "slice_indices a b c n = Inr (s0, stp, cnt) \<Longrightarrow>
   stp \<noteq> 0 \<and> slice_adjust a b stp n = (s0, stp, cnt)"
  by (auto simp add: slice_indices_def Let_def slice_adjust_def split: if_splits)

lemma slice_indices_bounds:
  assumes "slice_indices a b c n = Inr (s0, stp, cnt)" and "0 \<le> n" and "k < cnt"
  shows "stp \<noteq> 0" and "0 \<le> s0 + stp * int k" and "s0 + stp * int k < n"
  using slice_indices_Inr [OF assms(1)] slice_adjust_bounds [of a b stp n s0 stp cnt k] assms(2,3)
  by simp_all


lemma str_slice_block:
  assumes "str_slice s a b c = Inr s'" and "sdims s = d # ds"
  shows "\<exists>s0 stp cnt. slice_indices a b c (int (nat d)) = Inr (s0, stp, cnt)
           \<and> sdims s' = int cnt # ds
           \<and> (\<forall>k<cnt. 0 \<le> s0 + stp * int k \<and> s0 + stp * int k < int (nat d)
                  \<and> str_block s' k = str_block s (nat (s0 + stp * int k)))"
proof -
  from assms obtain s0 stp cnt where
    si: "slice_indices a b c (int (nat d)) = Inr (s0, stp, cnt)"
    by (cases "slice_indices a b c (int (nat d))") (auto simp add: str_slice_def)
  define lo where "lo = (if 0 < stp then s0 else s0 + stp * (int cnt - 1))"
  define hi where "hi = (if 0 < stp then s0 + stp * (int cnt - 1) else s0)"
  define first where "first = (if reversed s then str_count s - 1 - nat hi else nat lo)"
  define B where "B = str_blk s"
  define C where "C = str_count s"
  have s': "s' = \<lparr>base = (if cnt = 0 then base s else base s + first * (Suc (skip s) * B)),
                  sdims = int cnt # ds,
                  skip = Suc (skip s) * nat \<bar>stp\<bar> - 1,
                  reversed = (reversed s \<noteq> (stp < 0))\<rparr>"
  proof -
    have "str_slice s a b c =
        Inr \<lparr>base = (if cnt = 0 then base s else base s + first * (Suc (skip s) * B)),
                  sdims = int cnt # ds,
                  skip = Suc (skip s) * nat \<bar>stp\<bar> - 1,
                  reversed = (reversed s \<noteq> (stp < 0))\<rparr>"
      unfolding str_slice_def assms(2) list.case si sum.case prod.case Let_def lo_def hi_def
        first_def B_def by (rule refl)
    then show ?thesis using assms(1) by (simp only: sum.inject)
  qed
  have Cd: "C = nat d" using assms(2) by (simp add: C_def str_count_def)
  have nz: "stp \<noteq> 0" using si by (auto dest: slice_indices_Inr)
  have bnd: "0 \<le> s0 + stp * int j \<and> s0 + stp * int j < int C" if "j < cnt" for j
    using slice_indices_bounds(2,3) [OF si _ that] by (simp add: Cd)
  have B': "str_blk s' = B" using assms(2) by (simp add: s' str_blk_def B_def)
  have blk: "str_block s' k = str_block s (nat (s0 + stp * int k))" if k: "k < cnt" for k
  proof -
    have c0: "0 < cnt" using k by simp
    define idx where "idx = nat (s0 + stp * int k)"
    have idx: "int idx = s0 + stp * int k" using bnd [OF k] by (simp add: idx_def)
    have idxC: "idx < C" using bnd [OF k] idx by linarith
    have b0: "0 \<le> s0" "s0 < int C" using bnd [OF c0] by simp_all
    have bl: "0 \<le> s0 + stp * (int cnt - 1)" "s0 + stp * (int cnt - 1) < int C"
      using bnd [of "cnt - 1"] c0 by (simp_all add: of_nat_diff)
    define m where "m = cnt - 1 - k"
    define r where "r = C - 1 - idx"
    define ast where "ast = nat \<bar>stp\<bar>"
    have im: "int m = int cnt - 1 - int k" using k by (simp add: m_def of_nat_diff)
    have ir: "int r = int C - 1 - int idx" using idxC by (simp add: r_def of_nat_diff)
    have iast: "int ast = \<bar>stp\<bar>" by (simp add: ast_def)
    have cs': "str_count s' = cnt" by (simp add: s' str_count_def)
    have rs': "reversed s' = (reversed s \<noteq> (stp < 0))" by (simp add: s')
    have "int (first + (if reversed s' then m else k) * ast) = int (if reversed s then r else idx)"
    proof (cases "reversed s")
      case r: True
      show ?thesis
      proof (cases "0 < stp")
        case True
        have h: "nat hi \<le> C - 1" using bl True by (simp add: hi_def)
        have f: "int first = int C - 1 - hi" using r h bl True b0
          by (simp add: first_def C_def [symmetric] hi_def of_nat_diff)
        show ?thesis using r True rs' by (simp add: f im ir iast idx hi_def algebra_simps)
      next
        case False
        then have n: "stp < 0" using nz by simp
        have h: "nat hi \<le> C - 1" using b0 False by (simp add: hi_def)
        have f: "int first = int C - 1 - hi" using r h b0 False
          by (simp add: first_def C_def [symmetric] hi_def of_nat_diff)
        show ?thesis using r n rs' by (simp add: f im ir iast idx hi_def algebra_simps)
      qed
    next
      case r: False
      show ?thesis
      proof (cases "0 < stp")
        case True
        have f: "int first = s0" using r b0 True by (simp add: first_def lo_def)
        show ?thesis using r True rs' by (simp add: f im ir iast idx algebra_simps)
      next
        case False
        then have n: "stp < 0" using nz by simp
        have f: "int first = s0 + stp * (int cnt - 1)" using r bl False by (simp add: first_def lo_def)
        show ?thesis using r n rs' by (simp add: f im ir iast idx algebra_simps)
      qed
    qed
    then have "first + (if reversed s' then m else k) * ast = (if reversed s then r else idx)"
      by (simp only: int_int_eq)
    then have key: "first + (if reversed s' then str_count s' - 1 - k else k) * nat \<bar>stp\<bar>
               = (if reversed s then C - 1 - idx else idx)"
      by (simp only: m_def r_def ast_def cs')
    have sk: "Suc (skip s') = Suc (skip s) * nat \<bar>stp\<bar>" using nz by (simp add: s')
    have "str_block s' k = base s + first * (Suc (skip s) * B)
           + (if reversed s' then str_count s' - 1 - k else k) * (Suc (skip s') * B)"
      using c0 by (simp add: str_block_def B' ) (simp add: s')
    also have "\<dots> = base s + (first + (if reversed s' then str_count s' - 1 - k else k) * nat \<bar>stp\<bar>)
                          * (Suc (skip s) * B)"
      by (simp only: sk) (simp add: algebra_simps)
    also have "\<dots> = base s + (if reversed s then C - 1 - idx else idx) * (Suc (skip s) * B)"
      by (simp only: key)
    also have "\<dots> = str_block s idx" by (simp add: str_block_def C_def B_def)
    finally show ?thesis by (simp add: idx_def)
  qed
  show ?thesis using si s' bnd blk by (auto simp add: Cd)
qed

subsection \<open>Indexing a plane whose storage is an array\<close>

lemma shaped_Arr:
  "shaped p \<Longrightarrow> grid p = Arr a \<Longrightarrow> dims a \<noteq> [] \<and> shape p = dims a @ [N p]"
  by (simp add: shaped_def)

lemma getitem_partial:
  assumes "shaped p" and "grid p = Arr a" and "length ix \<noteq> length (shape p)"
  shows "getitem p (Tup ix) h =
     (case nd_resolve (dims a) ix of
        Inl e \<Rightarrow> Inl e
      | Inr (k, rest) \<Rightarrow>
          if length ix = length (dims a) then Inl AttributeError
          else Inr (View \<lparr>grid = Arr \<lparr>off = off a + k, dims = rest\<rparr>, shape = rest @ [N p], N = N p\<rparr>))"
  using assms
  by (auto simp add: getitem_def getitem_tuple_def nd_getitem_def obj_shape_def Plane_init_Some
      split: sum.splits)

lemma getitem_full:
  assumes "shaped p" and "grid p = Arr a" and "length ix = length (shape p)"
  shows "getitem p (Tup ix) h =
     (case nd_resolve (dims a) (butlast ix) of
        Inl e \<Rightarrow> Inl e
      | Inr (k, rest) \<Rightarrow>
          (case norm_index (int (length (rows h (flat_get h a k)))) (last ix) of
             Inl e \<Rightarrow> Inl e
           | Inr j \<Rightarrow> Inr (Obj (Bit (rows h (flat_get h a k) ! j)))))"
proof -
  have s: "shape p = dims a @ [N p]" using assms shaped_Arr by simp
  then have ne: "ix \<noteq> []" and l: "length (butlast ix) = length (dims a)" using assms(3) by auto
  show ?thesis using assms(2,3) ne l
    by (auto simp add: getitem_def getitem_tuple_def getitem_int_def nd_getitem_def
        bitarray_getitem_def split: sum.splits)
qed

lemma getitem_scalar:
  assumes "shaped p" and "grid p = Arr a"
  shows "getitem p (Scalar i) h =
     (case nd_resolve (dims a) [i] of
        Inl e \<Rightarrow> Inl e
      | Inr (k, rest) \<Rightarrow>
          if length (dims a) = 1
          then Inr (View \<lparr>grid = Row (flat_get h a k), shape = [N p], N = N p\<rparr>)
          else Inr (View \<lparr>grid = Arr \<lparr>off = off a + k, dims = rest\<rparr>, shape = rest @ [N p], N = N p\<rparr>))"
proof -
  have s: "shape p = dims a @ [N p]" "dims a \<noteq> []" using assms shaped_Arr by simp_all
  then have "length (shape p) \<noteq> 1" by (cases "dims a") auto
  then show ?thesis using assms(2)
    by (auto simp add: getitem_def getitem_int_def nd_getitem_def obj_shape_def Plane_init_Some
        split: sum.splits)
qed

text \<open>A view of at least two dimensions is a window onto the cells of its parent.\<close>

lemma getitem_view_window:
  assumes "shaped p" and "grid p = Arr a"
    and "getitem p (Tup ix) h = Inr (View v) \<or> (\<exists>j. ix = [j] \<and> getitem p (Scalar j) h = Inr (View v))"
    and "2 \<le> length (shape v)"
  shows "\<exists>k rest. nd_resolve (dims a) ix = Inr (k, rest) \<and> rest \<noteq> []
          \<and> v = \<lparr>grid = Arr \<lparr>off = off a + k, dims = rest\<rparr>, shape = rest @ [N p], N = N p\<rparr>"
  using assms(3)
proof
  assume g: "getitem p (Tup ix) h = Inr (View v)"
  have "length ix \<noteq> length (shape p)"
  proof
    assume "length ix = length (shape p)"
    then show False using assms(1,2) g
      by (simp add: getitem_full split: sum.splits prod.splits)
  qed
  then show ?thesis using assms(1,2,4) g
    by (auto simp add: getitem_partial split: sum.splits if_splits)
next
  assume "\<exists>j. ix = [j] \<and> getitem p (Scalar j) h = Inr (View v)"
  then obtain j where j: "ix = [j]" "getitem p (Scalar j) h = Inr (View v)" by blast
  show ?thesis using assms(1,2,4) j
    by (auto simp add: getitem_scalar split: sum.splits if_splits)
qed

lemma view_reads_parent:
  assumes "shaped p" and "grid p = Arr a"
    and "getitem p (Tup ix) h = Inr (View v) \<or> (\<exists>j. ix = [j] \<and> getitem p (Scalar j) h = Inr (View v))"
    and "2 \<le> length (shape v)" and "length c = length (shape v)"
  shows "shaped v \<and> getitem v (Tup c) h' = getitem p (Tup (ix @ c)) h'"
proof -
  from getitem_view_window [OF assms(1-4)] obtain k rest where
    r: "nd_resolve (dims a) ix = Inr (k, rest)" "rest \<noteq> []"
    and v: "v = \<lparr>grid = Arr \<lparr>off = off a + k, dims = rest\<rparr>, shape = rest @ [N p], N = N p\<rparr>"
    by blast
  have sv: "shaped v" using v r(2) by (simp add: shaped_def)
  have gv: "grid v = Arr \<lparr>off = off a + k, dims = rest\<rparr>" using v by simp
  have c: "c \<noteq> []" using assms(5) v by auto
  have sp: "shape p = dims a @ [N p]" using assms(1,2) shaped_Arr by simp
  have "rest = drop (length ix) (dims a)" "length ix \<le> length (dims a)"
    using r(1) nd_resolve_Inr by auto
  then have lp: "length (ix @ c) = length (shape p)" using assms(5) v sp by simp
  have b: "butlast (ix @ c) = ix @ butlast c" using c by (simp add: butlast_append)
  have "nd_resolve (dims a) (ix @ butlast c) =
      (case nd_resolve rest (butlast c) of Inl e \<Rightarrow> Inl e | Inr (k', rest') \<Rightarrow> Inr (k + k', rest'))"
    using r(1) by (rule nd_resolve_append)
  then have "getitem p (Tup (ix @ c)) h' = getitem v (Tup c) h'"
    using c by (simp add: getitem_full [OF assms(1,2) lp] getitem_full [OF sv gv assms(5)] b
        flat_get_def add.assoc split: sum.splits)
  then show ?thesis using sv by simp
qed

lemma ex_plane_init: "Plane_init [2, 2, 3] None heap0 = Inr (ex_plane, ex_heap)"
  by (simp add: Plane_init_nd np_limits ex_plane_def ex_heap_def heap0_def eval_nat_numeral)

lemma map_sum_Obj_not_View: "map_sum id Obj x \<noteq> Inr (View v)"
  by (cases x) auto

lemma randomize_array_self:
  "2 \<le> length (shape q) \<Longrightarrow> randomize q g h = Inr (q', g', h') \<Longrightarrow> q' = q"
  by (auto simp add: randomize_def Let_def split: if_splits obj.splits sum.splits)

subsection \<open>Views of arrays, whole or sliced\<close>

lemma nd_getitem_Cons:
  "dims a = d # ds \<Longrightarrow>
   nd_getitem h a (i0 # rest) =
     (case norm_index d i0 of
        Inl e \<Rightarrow> Inl e
      | Inr k \<Rightarrow> nd_getitem h \<lparr>off = off a + k * nat (prod_list ds), dims = ds\<rparr> rest)"
  by (auto simp add: nd_getitem_def flat_get_def add.assoc split: sum.splits)

lemma getitem_tuple_Cons:
  "obj_shape g = Inr (d # ds) \<Longrightarrow>
   getitem_tuple h g (i0 # rest) =
     (case norm_index d i0 of
        Inl e \<Rightarrow> Inl e
      | Inr k \<Rightarrow> nd_getitem h (block g k) rest)"
  by (cases g)
    (auto simp add: obj_shape_def getitem_tuple_def nd_getitem_Cons block_def str_getitem_def
      split: sum.splits)

lemma getitem_int_tuple:
  "obj_shape g = Inr ds \<Longrightarrow> getitem_int h g j = getitem_tuple h g [j]"
  by (cases g) (simp_all add: obj_shape_def getitem_int_def getitem_tuple_def)

lemma dims_block: "obj_shape g = Inr (d # ds) \<Longrightarrow> dims (block g k) = ds"
  by (cases g) (auto simp add: obj_shape_def block_def)

text \<open>Indexing with a tuple goes through the block that the first index selects.\<close>

lemma getitem_through_block:
  assumes "obj_shape (grid p) = Inr (d # ds)" and "shape p = d # ds @ [N p]"
  shows "getitem p (Tup (c0 # cs)) h =
     (case norm_index d c0 of
        Inl e \<Rightarrow> Inl e
      | Inr k \<Rightarrow> getitem \<lparr>grid = Arr (block (grid p) k), shape = ds @ [N p], N = N p\<rparr> (Tup cs) h)"
proof (cases "norm_index d c0")
  case (Inl e)
  then show ?thesis using assms
    by (cases "cs = []") (simp_all add: getitem_def getitem_tuple_Cons)
next
  case (Inr k)
  show ?thesis
  proof (cases "length cs = Suc (length ds)")
    case True
    then have ne: "cs \<noteq> []" by auto
    then show ?thesis using assms Inr True
      by (simp add: getitem_def getitem_tuple_Cons) (simp add: getitem_tuple_def split: sum.splits)
  next
    case False
    then show ?thesis using assms Inr
      by (simp add: getitem_def getitem_tuple_Cons) (simp add: getitem_tuple_def split: sum.splits)
  qed
qed


lemma getitem_slice_array:
  assumes "obj_shape g = Inr (d # ds)" and "getitem_slice h g a b st = Inr (g', h1)"
  shows "h1 = h \<and> (\<exists>s0 stp cnt. slice_indices a b st (int (nat d)) = Inr (s0, stp, cnt)
           \<and> obj_shape g' = Inr (int cnt # ds)
           \<and> (\<forall>k<cnt. 0 \<le> s0 + stp * int k \<and> s0 + stp * int k < d
                  \<and> block g' k = block g (nat (s0 + stp * int k))))"
proof -
  have main: "\<exists>s0 stp cnt. slice_indices a b st (int (nat d)) = Inr (s0, stp, cnt)
           \<and> obj_shape (Str s') = Inr (int cnt # ds)
           \<and> (\<forall>k<cnt. 0 \<le> s0 + stp * int k \<and> s0 + stp * int k < d
                  \<and> block (Str s') k = \<lparr>off = str_block s (nat (s0 + stp * int k)), dims = ds\<rparr>)"
    if "str_slice s a b st = Inr s'" and "sdims s = d # ds" for s s'
  proof -
    from str_slice_block [OF that] obtain s0 stp cnt where
      r: "slice_indices a b st (int (nat d)) = Inr (s0, stp, cnt)" "sdims s' = int cnt # ds"
        "\<forall>k<cnt. 0 \<le> s0 + stp * int k \<and> s0 + stp * int k < int (nat d)
                  \<and> str_block s' k = str_block s (nat (s0 + stp * int k))"
      by blast
    have "s0 + stp * int k < d" if "k < cnt" for k
      using r(3) that by (cases "0 \<le> d") auto
    then show ?thesis using r by (auto simp add: obj_shape_def block_def)
  qed
  show ?thesis
  proof (cases g)
    case (Arr ar)
    then obtain s' where s': "str_slice (str_of_arr ar) a b st = Inr s'" "g' = Str s'" "h1 = h"
      using assms(2) by (cases "str_slice (str_of_arr ar) a b st") (auto simp add: getitem_slice_def)
    have d: "sdims (str_of_arr ar) = d # ds" using assms(1) Arr by (simp add: obj_shape_def str_of_arr_def)
    have "str_block (str_of_arr ar) j = off ar + j * nat (prod_list (tl (dims ar)))" for j
      by (simp add: str_block_def str_of_arr_def str_blk_def)
    moreover have "tl (dims ar) = ds" using d by (simp add: str_of_arr_def)
    ultimately show ?thesis using main [OF s'(1) d] s'(2,3) Arr by (simp add: block_def)
  next
    case (Str s)
    then obtain s' where s': "str_slice s a b st = Inr s'" "g' = Str s'" "h1 = h"
      using assms(2) by (cases "str_slice s a b st") (auto simp add: getitem_slice_def)
    have d: "sdims s = d # ds" using assms(1) Str by (simp add: obj_shape_def)
    show ?thesis using main [OF s'(1) d] s'(2,3) Str d by (simp add: block_def)
  next
    case (Row r)
    then show ?thesis using assms(1) by (simp add: obj_shape_def)
  next
    case (Bit x)
    then show ?thesis using assms(1) by (simp add: obj_shape_def)
  qed
qed

text \<open>The storage of a plane that has a view is an array, whole or sliced.\<close>

lemma shaped_cases:
  assumes "shaped p"
  obtains (array) d ds where "obj_shape (grid p) = Inr (d # ds)" "shape p = d # ds @ [N p]"
  | (row) r where "grid p = Row r" "shape p = [N p]"
proof (cases "grid p")
  case (Arr a)
  then obtain d ds where "dims a = d # ds" using assms by (cases "dims a") (auto simp add: shaped_def)
  then show ?thesis using Arr assms array by (simp add: shaped_def obj_shape_def)
next
  case (Str s)
  then obtain d ds where "sdims s = d # ds" using assms by (cases "sdims s") (auto simp add: shaped_def)
  then show ?thesis using Str assms array by (simp add: shaped_def obj_shape_def)
next
  case (Row r)
  then show ?thesis using assms row by (simp add: shaped_def)
next
  case (Bit b)
  then show ?thesis using assms by (simp add: shaped_def)
qed

lemma view_of_slice:
  assumes "shaped p" and "getitem p (Slc a b st) h = Inr (View v)"
  shows "getitem_heap p (Slc a b st) h = Inr (View v, h)"
    and "2 \<le> length (shape v)"
    and "length c = length (shape v) \<Longrightarrow> in_bounds (shape v) c \<Longrightarrow>
         getitem v (Tup c) h' = getitem p (Tup (parent_coord p (Slc a b st) c)) h'"
proof -
  from assms(1) obtain d ds where g: "obj_shape (grid p) = Inr (d # ds)" and sp: "shape p = d # ds @ [N p]"
  proof (cases rule: shaped_cases)
    case (row r)
    then have False using assms(2)
      by (cases "getitem_slice h (Row r) a b st") (auto simp add: getitem_def getitem_Slc_def)
    then show ?thesis ..
  qed
  have l: "length (shape p) \<noteq> 1" using sp by simp
  from assms(2) l obtain tmp h1 where
    t: "getitem_slice h (grid p) a b st = Inr (tmp, h1)"
    and w: "map_sum id fst (wrap_plane p tmp h1) = Inr (View v)"
    by (cases "getitem_slice h (grid p) a b st")
      (auto simp add: getitem_def getitem_Slc_def split: sum.splits)
  from getitem_slice_array [OF g t] obtain s0 stp cnt where
    h1: "h1 = h"
    and si: "slice_indices a b st (int (nat d)) = Inr (s0, stp, cnt)"
    and os: "obj_shape tmp = Inr (int cnt # ds)"
    and bl: "\<forall>k<cnt. 0 \<le> s0 + stp * int k \<and> s0 + stp * int k < d
                  \<and> block tmp k = block (grid p) (nat (s0 + stp * int k))"
    by blast
  have wp: "wrap_plane p tmp h = Inr (View \<lparr>grid = tmp, shape = int cnt # ds @ [N p], N = N p\<rparr>, h)"
    using os by (simp add: wrap_plane_def Plane_init_Some)
  then have v: "v = \<lparr>grid = tmp, shape = int cnt # ds @ [N p], N = N p\<rparr>"
    using w h1 by simp
  show "getitem_heap p (Slc a b st) h = Inr (View v, h)"
    using l t h1 wp v by (simp add: getitem_heap_def getitem_Slc_def)
  show "2 \<le> length (shape v)" using v by simp
  show "getitem v (Tup c) h' = getitem p (Tup (parent_coord p (Slc a b st) c)) h'"
    if lc: "length c = length (shape v)" and ib: "in_bounds (shape v) c"
  proof -
    obtain c0 cs where c: "c = c0 # cs" using lc v by (cases c) auto
    have c0: "- int cnt \<le> c0" "c0 < int cnt" using ib c v by simp_all
    define k where "k = nat (if c0 < 0 then c0 + int cnt else c0)"
    have nk: "norm_index (int cnt) c0 = Inr k" using c0 by (simp add: norm_index_Inr k_def)
    have kc: "k < cnt" using c0 by (auto simp add: k_def)
    have ik: "(if c0 < 0 then c0 + int cnt else c0) = int k" using c0 by (simp add: k_def)
    have pc: "parent_coord p (Slc a b st) c = (s0 + stp * int k) # cs"
      using c si sp ik by (simp add: parent_coord_def)
    have b: "0 \<le> s0 + stp * int k" "s0 + stp * int k < d"
      "block tmp k = block (grid p) (nat (s0 + stp * int k))"
      using bl kc by simp_all
    have np: "norm_index d (s0 + stp * int k) = Inr (nat (s0 + stp * int k))"
      using b(1,2) by (simp add: norm_index_def)
    have gv: "obj_shape (grid v) = Inr (int cnt # ds)" "shape v = int cnt # ds @ [N v]" "N v = N p"
      using v os by simp_all
    have "getitem v (Tup (c0 # cs)) h' =
          getitem \<lparr>grid = Arr (block tmp k), shape = ds @ [N p], N = N p\<rparr> (Tup cs) h'"
      using getitem_through_block [OF gv(1,2), of c0 cs h'] nk v by simp
    moreover have "getitem p (Tup ((s0 + stp * int k) # cs)) h' =
          getitem \<lparr>grid = Arr (block (grid p) (nat (s0 + stp * int k))), shape = ds @ [N p], N = N p\<rparr>
            (Tup cs) h'"
      using getitem_through_block [OF g sp, of "s0 + stp * int k" cs h'] np by simp
    ultimately show ?thesis using c pc b(3) by simp
  qed
qed


lemma obj_shape_simps:
  "obj_shape (Row r) = Inl AttributeError" "obj_shape (Arr a) = Inr (dims a)"
  "obj_shape (Str s) = Inr (sdims s)" "obj_shape (Bit b) = Inl AttributeError"
  by (simp_all add: obj_shape_def)

lemma nd_getitem_Nil:
  "nd_getitem h a [] = (if dims a = [] then Inr (Row (flat_get h a 0)) else Inr (Arr a))"
  by (simp add: nd_getitem_def)

text \<open>The view that an integer index yields.\<close>

lemma scalar_view:
  assumes "obj_shape (grid p) = Inr (d # ds)" and "shape p = d # ds @ [N p]"
    and "getitem p (Scalar j) h = Inr (View v)"
  shows "\<exists>k. norm_index d j = Inr k
           \<and> v = (if ds = [] then \<lparr>grid = Row (flat_get h (block (grid p) k) 0), shape = [N p], N = N p\<rparr>
                    else \<lparr>grid = Arr (block (grid p) k), shape = ds @ [N p], N = N p\<rparr>)"
proof (cases "norm_index d j")
  case (Inl e)
  then show ?thesis using assms
    by (simp add: getitem_def getitem_int_tuple getitem_tuple_Cons)
next
  case (Inr k)
  have "dims (block (grid p) k) = ds" using assms(1) by (rule dims_block)
  then show ?thesis using assms Inr
    by (cases "ds = []")
      (simp_all add: getitem_def getitem_int_tuple getitem_tuple_Cons nd_getitem_Nil obj_shape_simps
        Plane_init_Some)
qed

lemma view_of_scalar:
  assumes "shaped p" and "getitem p (Scalar j) h = Inr (View v)"
  shows "2 \<le> length (shape v) \<Longrightarrow> getitem v (Tup c) h' = getitem p (Tup (j # c)) h'"
    and "length (shape v) = 1 \<Longrightarrow> cells h' = cells h \<Longrightarrow>
         getitem v (Scalar b) h' = getitem p (Tup [j, b]) h'"
proof -
  from assms(1) obtain d ds where g: "obj_shape (grid p) = Inr (d # ds)" and sp: "shape p = d # ds @ [N p]"
  proof (cases rule: shaped_cases)
    case (row r)
    then have False using assms(2) by (simp add: getitem_def map_sum_Obj_not_View)
    then show ?thesis ..
  qed
  from scalar_view [OF g sp assms(2)] obtain k where
    k: "norm_index d j = Inr k"
    and v: "v = (if ds = [] then \<lparr>grid = Row (flat_get h (block (grid p) k) 0), shape = [N p], N = N p\<rparr>
                    else \<lparr>grid = Arr (block (grid p) k), shape = ds @ [N p], N = N p\<rparr>)"
    by blast
  have tb: "getitem p (Tup (j # cs)) h' =
        getitem \<lparr>grid = Arr (block (grid p) k), shape = ds @ [N p], N = N p\<rparr> (Tup cs) h'" for cs
    using getitem_through_block [OF g sp, of j cs h'] k by simp
  show "getitem v (Tup c) h' = getitem p (Tup (j # c)) h'" if "2 \<le> length (shape v)"
  proof -
    have "ds \<noteq> []" using that v by auto
    then show ?thesis using v tb by simp
  qed
  show "getitem v (Scalar b) h' = getitem p (Tup [j, b]) h'"
    if "length (shape v) = 1" and c: "cells h' = cells h"
  proof -
    have ds: "ds = []" using that v by (cases "ds = []") auto
    have db: "dims (block (grid p) k) = []" using dims_block [OF g, of k] ds by simp
    show ?thesis using v ds db c
      by (simp add: tb) (simp add: getitem_def getitem_tuple_def nd_getitem_Nil flat_get_def)
  qed
qed

lemma no_view_of_row_array:
  "getitem \<lparr>grid = Arr \<lparr>off = k, dims = []\<rparr>, shape = [n], N = n\<rparr> (Tup ix) h \<noteq> Inr (View v)"
proof (cases ix)
  case Nil
  then show ?thesis by (simp add: getitem_def getitem_tuple_def nd_getitem_Nil obj_shape_def)
next
  case (Cons x xs)
  then show ?thesis
    by (cases xs)
      (auto simp add: getitem_def getitem_tuple_def nd_getitem_def map_sum_Obj_not_View
        split: sum.splits)
qed

lemma view_of_tuple:
  assumes "shaped p" and "getitem p (Tup ix) h = Inr (View v)"
    and "2 \<le> length (shape v)" and "length c = length (shape v)"
  shows "getitem v (Tup c) h' = getitem p (Tup (ix @ c)) h'"
proof -
  from assms(1) obtain d ds where g: "obj_shape (grid p) = Inr (d # ds)" and sp: "shape p = d # ds @ [N p]"
  proof (cases rule: shaped_cases)
    case (row r)
    then have False using assms(2)
      by (auto simp add: getitem_def getitem_tuple_def map_sum_Obj_not_View split: if_splits)
    then show ?thesis ..
  qed
  show ?thesis
  proof (cases ix)
    case Nil
    have "v = \<lparr>grid = grid p, shape = shape p, N = N p\<rparr>"
      using assms(2) g sp Nil
      by (cases "grid p")
        (auto simp add: getitem_def getitem_tuple_def nd_getitem_Nil str_getitem_def obj_shape_def
          Plane_init_Some split: if_splits)
    then have "v = p" by (cases p) simp
    then show ?thesis using Nil by simp
  next
    case (Cons i0 rest)
    from assms(2) Cons obtain k where
      k: "norm_index d i0 = Inr k"
      and pb: "getitem \<lparr>grid = Arr (block (grid p) k), shape = ds @ [N p], N = N p\<rparr> (Tup rest) h
               = Inr (View v)"
      using getitem_through_block [OF g sp, of i0 rest h]
      by (cases "norm_index d i0") auto
    have db: "dims (block (grid p) k) = ds" using g by (rule dims_block)
    have ne: "ds \<noteq> []"
    proof
      assume "ds = []"
      then have "block (grid p) k = \<lparr>off = off (block (grid p) k), dims = []\<rparr>" using db by simp
      then show False using pb \<open>ds = []\<close> no_view_of_row_array [of "off (block (grid p) k)" "N p" rest h v]
        by simp
    qed
    have sh: "shaped \<lparr>grid = Arr (block (grid p) k), shape = ds @ [N p], N = N p\<rparr>"
      using db ne by (simp add: shaped_def)
    have "getitem v (Tup c) h' =
          getitem \<lparr>grid = Arr (block (grid p) k), shape = ds @ [N p], N = N p\<rparr> (Tup (rest @ c)) h'"
      using view_reads_parent [OF sh _ disjI1 [OF pb] assms(3,4), of "block (grid p) k" h'] by simp
    also have "\<dots> = getitem p (Tup (i0 # rest @ c)) h'"
      using getitem_through_block [OF g sp, of i0 "rest @ c" h'] k by simp
    finally show ?thesis using Cons by simp
  qed
qed

lemma row_has_no_view:
  assumes "grid p = Row r" and "shape p = [N p]" and "\<not> is_list i"
  shows "getitem p i h \<noteq> Inr (View v)"
proof (cases i)
  case (Tup ix)
  then show ?thesis using assms
    by (auto simp add: getitem_def getitem_tuple_def map_sum_Obj_not_View split: if_splits)
next
  case (Scalar j)
  then show ?thesis using assms by (simp add: getitem_def map_sum_Obj_not_View)
next
  case (Lst l)
  then show ?thesis using assms by simp
next
  case (Slc a b st)
  then show ?thesis using assms
    by (cases "getitem_slice h (Row r) a b st") (auto simp add: getitem_def getitem_Slc_def)
qed

lemma tuple_view_dims:
  assumes "shaped p" and "getitem p (Tup ix) h = Inr (View v)"
  shows "2 \<le> length (shape v)"
proof -
  have arr: "2 \<le> length (shape v)"
    if "shaped q" "grid q = Arr a" "getitem q (Tup ix') h = Inr (View v)" for q a ix'
  proof -
    have n: "length ix' \<noteq> length (shape q)"
    proof
      assume "length ix' = length (shape q)"
      then show False using that by (simp add: getitem_full split: sum.splits prod.splits)
    qed
    from that n obtain k rest where
      r: "nd_resolve (dims a) ix' = Inr (k, rest)" "length ix' \<noteq> length (dims a)"
        "v = \<lparr>grid = Arr \<lparr>off = off a + k, dims = rest\<rparr>, shape = rest @ [N q], N = N q\<rparr>"
      by (auto simp add: getitem_partial split: sum.splits if_splits)
    have "rest = drop (length ix') (dims a)" "length ix' \<le> length (dims a)"
      using r(1) nd_resolve_Inr by auto
    then have "rest \<noteq> []" using r(2) by simp
    then show ?thesis using r(3) by (cases rest) auto
  qed
  from assms(1) show ?thesis
  proof (cases rule: shaped_cases)
    case (row r)
    then show ?thesis using assms(2) row_has_no_view [of p r "Tup ix" h v] by simp
  next
    case (array d ds)
    show ?thesis
    proof (cases ix)
      case Nil
      have "v = \<lparr>grid = grid p, shape = shape p, N = N p\<rparr>"
        using assms(2) array Nil
        by (cases "grid p")
          (auto simp add: getitem_def getitem_tuple_def nd_getitem_Nil str_getitem_def obj_shape_def
            Plane_init_Some split: if_splits)
      then show ?thesis using array by simp
    next
      case (Cons i0 rest)
      from assms(2) Cons obtain k where
        k: "norm_index d i0 = Inr k"
        and pb: "getitem \<lparr>grid = Arr (block (grid p) k), shape = ds @ [N p], N = N p\<rparr> (Tup rest) h
                 = Inr (View v)"
        using getitem_through_block [OF array, of i0 rest h]
        by (cases "norm_index d i0") auto
      have db: "dims (block (grid p) k) = ds" using array(1) by (rule dims_block)
      have ne: "ds \<noteq> []"
      proof
        assume "ds = []"
        then have "block (grid p) k = \<lparr>off = off (block (grid p) k), dims = []\<rparr>" using db by simp
        then show False using pb \<open>ds = []\<close> no_view_of_row_array [of "off (block (grid p) k)" "N p" rest h v]
          by simp
      qed
      have sh: "shaped \<lparr>grid = Arr (block (grid p) k), shape = ds @ [N p], N = N p\<rparr>"
        using db ne by (simp add: shaped_def)
      show ?thesis using arr [OF sh _ pb] by simp
    qed
  qed
qed

subsection \<open>Bounds of a coordinate\<close>

lemma in_bounds_length: "in_bounds ds ix \<Longrightarrow> length ix \<le> length ds"
  by (induction ds ix rule: in_bounds.induct) simp_all

lemma in_bounds_prefix: "length ix \<le> length ds \<Longrightarrow> in_bounds (ds @ es) ix = in_bounds ds ix"
  by (induction ds ix rule: in_bounds.induct) simp_all

lemma in_bounds_snoc:
  "length ix = length ds \<Longrightarrow> in_bounds (ds @ [n]) (ix @ [j]) = (in_bounds ds ix \<and> - n \<le> j \<and> j < n)"
  by (induction ds ix rule: in_bounds.induct) auto

lemma wrap_index_snoc:
  "length ix = length ds \<Longrightarrow>
   wrap_index (ds @ [n]) (ix @ [j]) = wrap_index ds ix @ [if j < 0 then j + n else j]"
  by (induction ds ix rule: wrap_index.induct) auto

lemma length_wrap_index: "length (wrap_index ds ix) = length ix"
  by (induction ds ix rule: wrap_index.induct) auto

lemma norm_index_wrap:
  "- d \<le> i \<Longrightarrow> i < d \<Longrightarrow> norm_index d (if i < 0 then i + d else i) = norm_index d i"
  by (simp add: norm_index_def)

lemma nd_resolve_wrap: "in_bounds ds ix \<Longrightarrow> nd_resolve ds (wrap_index ds ix) = nd_resolve ds ix"
proof (induction ds ix rule: in_bounds.induct)
  case (3 d ds i ix)
  then have "norm_index d (if i < 0 then i + d else i) = norm_index d i"
    by (intro norm_index_wrap) simp_all
  then show ?case using 3 by (simp split: sum.splits)
qed simp_all

lemma consistent_row_length:
  "consistent h p \<Longrightarrow> grid p = Arr a \<Longrightarrow> k < nd_size a \<Longrightarrow>
   int (length (rows h (flat_get h a k))) = N p"
  by (simp add: consistent_def plane_rows_def list_all_iff)

text \<open>A full coordinate on a consistent plane: a bit when within the bounds, IndexError otherwise.\<close>

lemma getitem_full_consistent:
  assumes "consistent h p" and "grid p = Arr a" and "length ix = length (shape p)"
  shows "getitem p (Tup ix) h =
     (case nd_resolve (dims a) (butlast ix) of
        Inl e \<Rightarrow> Inl e
      | Inr (k, rest) \<Rightarrow>
          (case norm_index (N p) (last ix) of
             Inl e \<Rightarrow> Inl e
           | Inr j \<Rightarrow> Inr (Obj (Bit (rows h (flat_get h a k) ! j)))))"
proof -
  have sh: "shaped p" using assms(1) by (simp add: consistent_def)
  then have s: "shape p = dims a @ [N p]" using assms(2) shaped_Arr by simp
  then have l: "length (butlast ix) = length (dims a)" using assms(3) by simp
  show ?thesis
  proof (cases "nd_resolve (dims a) (butlast ix)")
    case (Inl e)
    then show ?thesis by (simp add: getitem_full [OF sh assms(2,3)])
  next
    case (Inr kr)
    obtain k rest where kr: "kr = (k, rest)" by (cases kr)
    have "rest = []" using Inr kr l nd_resolve_Inr [of "dims a" "butlast ix" k rest] by simp
    then have "k < nd_size a" using Inr kr l nd_resolve_full_less [of "dims a" "butlast ix" k]
      by (simp add: nd_size_def)
    then have "int (length (rows h (flat_get h a k))) = N p"
      using assms(1,2) by (rule consistent_row_length [rotated 2])
    then show ?thesis using Inr kr by (simp add: getitem_full [OF sh assms(2,3)])
  qed
qed

lemma getitem_out_of_bounds:
  assumes "consistent h p" and "grid p = Arr a" and "\<not> in_bounds (shape p) ix"
  shows "getitem p (Tup ix) h = Inl IndexError"
proof -
  have sh: "shaped p" using assms(1) by (simp add: consistent_def)
  then have s: "shape p = dims a @ [N p]" using assms(2) shaped_Arr by simp
  show ?thesis
  proof (cases "length ix = length (shape p)")
    case True
    then have ne: "ix \<noteq> []" and l: "length (butlast ix) = length (dims a)" using s by auto
    have "in_bounds (shape p) (butlast ix @ [last ix]) =
            (in_bounds (dims a) (butlast ix) \<and> - N p \<le> last ix \<and> last ix < N p)"
      unfolding s using l by (rule in_bounds_snoc)
    then have nb: "\<not> (in_bounds (dims a) (butlast ix) \<and> - N p \<le> last ix \<and> last ix < N p)"
      using assms(3) ne by simp
    show ?thesis
    proof (cases "in_bounds (dims a) (butlast ix)")
      case False
      then show ?thesis
        by (simp add: getitem_full_consistent [OF assms(1,2) True] nd_resolve_out)
    next
      case ib: True
      then obtain k where "nd_resolve (dims a) (butlast ix) = Inr (k, drop (length (butlast ix)) (dims a))"
        using nd_resolve_in by blast
      moreover have "norm_index (N p) (last ix) = Inl IndexError"
        using nb ib by (intro norm_index_Inl) simp
      ultimately show ?thesis by (simp add: getitem_full_consistent [OF assms(1,2) True])
    qed
  next
    case False
    have "\<not> in_bounds (dims a) ix"
    proof
      assume ib: "in_bounds (dims a) ix"
      then have "length ix \<le> length (dims a)" by (rule in_bounds_length)
      then have "in_bounds (dims a @ [N p]) ix = in_bounds (dims a) ix" by (rule in_bounds_prefix)
      then show False using ib assms(3) s by simp
    qed
    then show ?thesis by (simp add: getitem_partial [OF sh assms(2) False] nd_resolve_out)
  qed
qed

lemma getitem_in_bounds:
  assumes "consistent h p" and "grid p = Arr a" and "in_bounds (shape p) ix"
    and "length ix = length (shape p)"
  shows "\<exists>b. getitem p (Tup ix) h = Inr (Obj (Bit b))
            \<and> getitem p (Tup (wrap_index (shape p) ix)) h = Inr (Obj (Bit b))"
proof -
  have sh: "shaped p" using assms(1) by (simp add: consistent_def)
  then have s: "shape p = dims a @ [N p]" using assms(2) shaped_Arr by simp
  then have ne: "ix \<noteq> []" and l: "length (butlast ix) = length (dims a)" using assms(4) by auto
  have ix: "ix = butlast ix @ [last ix]" using ne by simp
  have "in_bounds (shape p) (butlast ix @ [last ix]) =
            (in_bounds (dims a) (butlast ix) \<and> - N p \<le> last ix \<and> last ix < N p)"
    unfolding s using l by (rule in_bounds_snoc)
  then have ib: "in_bounds (dims a) (butlast ix)" and j: "- N p \<le> last ix" "last ix < N p"
    using assms(3) ne by simp_all
  obtain k where k: "nd_resolve (dims a) (butlast ix) = Inr (k, drop (length (butlast ix)) (dims a))"
    using ib nd_resolve_in by blast
  have n: "norm_index (N p) (last ix) = Inr (nat (if last ix < 0 then last ix + N p else last ix))"
    using j by (rule norm_index_Inr)
  have w: "wrap_index (shape p) (butlast ix @ [last ix]) =
           wrap_index (dims a) (butlast ix) @ [if last ix < 0 then last ix + N p else last ix]"
    unfolding s using l by (rule wrap_index_snoc)
  have lw: "length (wrap_index (shape p) ix) = length (shape p)"
    using assms(4) by (simp add: length_wrap_index)
  have bw: "butlast (wrap_index (shape p) ix) = wrap_index (dims a) (butlast ix)"
    and lastw: "last (wrap_index (shape p) ix) = (if last ix < 0 then last ix + N p else last ix)"
    using w ix by simp_all
  have "getitem p (Tup (wrap_index (shape p) ix)) h = getitem p (Tup ix) h"
    using k n j ib
    by (simp add: getitem_full_consistent [OF assms(1,2) lw]
        getitem_full_consistent [OF assms(1,2,4)] bw lastw nd_resolve_wrap norm_index_wrap)
  moreover have "\<exists>b. getitem p (Tup ix) h = Inr (Obj (Bit b))"
    using k n by (simp add: getitem_full_consistent [OF assms(1,2,4)])
  ultimately show ?thesis by auto
qed

subsection \<open>Materialization against indexing\<close>

lemma length_concat_uniform:
  "\<forall>l\<in>set ls. length l = n \<Longrightarrow> length (concat ls) = length ls * n"
  by (induction ls) simp_all

lemma nth_concat_uniform:
  "\<forall>l\<in>set ls. length l = n \<Longrightarrow> k < length ls \<Longrightarrow> j < n \<Longrightarrow>
   concat ls ! (k * n + j) = ls ! k ! j"
proof (induction ls arbitrary: k)
  case Nil
  then show ?case by simp
next
  case (Cons l ls)
  show ?case
  proof (cases k)
    case 0
    then show ?thesis using Cons.prems by (simp add: nth_append)
  next
    case (Suc k')
    then have "concat ls ! (k' * n + j) = ls ! k' ! j" using Cons by simp
    moreover have "(l @ concat ls) ! (n + k' * n + j) = concat ls ! (k' * n + j)"
      using Cons.prems(1) by (simp add: nth_append)
    ultimately show ?thesis using Suc by (simp add: add.assoc)
  qed
qed

lemma nd_resolve_extra_dim:
  "nd_resolve ds ix = Inr (k, rest) \<Longrightarrow> 0 \<le> n \<Longrightarrow>
   nd_resolve (ds @ [n]) ix = Inr (k * nat n, rest @ [n])"
proof (induction ds ix arbitrary: k rule: nd_resolve.induct)
  case (3 d ds i ix)
  from "3.prems" obtain k1 k2 where
    k: "norm_index d i = Inr k1" "nd_resolve ds ix = Inr (k2, rest)" "k = k1 * nat (prod_list ds) + k2"
    by (auto split: sum.splits)
  have "nd_resolve (ds @ [n]) ix = Inr (k2 * nat n, rest @ [n])"
    using k(1,2) "3.prems"(2) by (rule "3.IH")
  moreover have "nat (prod_list ds * n) = nat (prod_list ds) * nat n"
    using "3.prems"(2) by (simp add: nat_mult_distrib mult.commute [of _ n])
  ultimately show ?case using k by (simp add: algebra_simps)
qed simp_all

lemma in_bounds_full_pos:
  "in_bounds ds ix \<Longrightarrow> length ix = length ds \<Longrightarrow> list_all (\<lambda>d. 0 < d) ds"
  by (induction ds ix rule: in_bounds.induct) auto

lemma prod_list_pos: "list_all (\<lambda>d. 0 < d) (ds :: int list) \<Longrightarrow> 0 < prod_list ds"
  by (induction ds) simp_all

lemma member_le_prod_list:
  "list_all (\<lambda>d. 0 < d) (ds :: int list) \<Longrightarrow> x \<in> set ds \<Longrightarrow> x \<le> prod_list ds"
proof (induction ds)
  case Nil
  then show ?case by simp
next
  case (Cons d ds)
  have pd: "0 < prod_list ds" using Cons.prems(1) by (intro prod_list_pos) simp
  have d: "0 < d" using Cons.prems(1) by simp
  show ?case
  proof (cases "x = d")
    case True
    have "d * 1 \<le> d * prod_list ds" using d pd by (intro mult_left_mono) auto
    then show ?thesis using True by simp
  next
    case False
    then have "x \<le> prod_list ds" using Cons by simp
    moreover have "1 * prod_list ds \<le> d * prod_list ds" using d pd by (intro mult_right_mono) auto
    ultimately show ?thesis by simp
  qed
qed

lemma known_size_pos:
  "list_all (\<lambda>d. 0 < d) ds \<Longrightarrow> 0 < s \<Longrightarrow> s * prod_list ds \<le> npy_max_intp \<Longrightarrow>
   known_size ds s = Some (s * prod_list ds)"
proof (induction ds arbitrary: s)
  case Nil
  then show ?case by simp
next
  case (Cons d ds)
  have pd: "0 < prod_list ds" using Cons.prems(1) by (intro prod_list_pos) simp
  have d: "0 < d" using Cons.prems(1) by simp
  have "(s * d) * 1 \<le> (s * d) * prod_list ds" using d pd Cons.prems(2) by (intro mult_left_mono) auto
  then have le: "s * d \<le> npy_max_intp" using Cons.prems(3) by (simp add: mult.assoc)
  have "known_size ds (s * d) = Some (s * d * prod_list ds)"
    using Cons.prems d by (intro Cons.IH) (simp_all add: mult.assoc)
  then show ?case using d le by (simp add: mult.assoc)
qed

lemma np_reshape_same:
  assumes "list_all (\<lambda>d. 0 < d) sh" and "int (length (ddata d)) = prod_list sh"
    and "length sh \<le> npy_maxdims" and "prod_list sh \<le> npy_max_intp"
  shows "np_reshape d sh = Inr \<lparr>dshape = sh, ddata = ddata d\<rparr>"
proof -
  have f2: "filter (\<lambda>x. x < 0) sh = []" using assms(1) by (auto simp add: list_all_iff filter_empty_conv)
  have "x \<le> npy_max_intp" if "x \<in> set sh" for x
    using member_le_prod_list [OF assms(1) that] assms(4) by simp
  moreover have "0 \<le> npy_max_intp" by (simp add: npy_max_intp_def)
  ultimately have f3: "\<not> list_ex (\<lambda>x. x < - npy_max_intp - 1 \<or> npy_max_intp < x) sh"
    using assms(1) by (fastforce simp add: list_all_iff list_ex_iff)
  have k: "known_size sh 1 = Some (prod_list sh)"
    using known_size_pos [OF assms(1), of 1] assms(4) by simp
  show ?thesis using assms(2,3) by (simp add: np_reshape_def f2 f3 k Let_def)
qed

text \<open>
  On a consistent plane with array storage, the materialized array has the shape of the
  plane, and its element at a full coordinate within the bounds is the bit that indexing
  the plane yields.
\<close>

lemma bits_getitem_agree:
  assumes "consistent h p" and "grid p = Arr a" and "in_bounds (shape p) c"
    and "length c = length (shape p)"
    and "length (shape p) \<le> npy_maxdims" and "prod_list (shape p) \<le> npy_max_intp"
  shows "\<exists>m b. bits p h = Inr m \<and> dshape m = shape p
           \<and> getitem p (Tup c) h = Inr (Obj (Bit b))
           \<and> dense_getitem m c = Inr (DCell (CBit b))"
proof -
  have sh: "shaped p" using assms(1) by (simp add: consistent_def)
  then have s: "shape p = dims a @ [N p]" and dn: "dims a \<noteq> []" using assms(2) shaped_Arr by simp_all
  have l1: "length (shape p) \<noteq> 1" using s dn by (cases "dims a") auto
  have ne: "c \<noteq> []" and l: "length (butlast c) = length (dims a)" using s assms(4) by auto
  have pos: "list_all (\<lambda>d. 0 < d) (shape p)" using assms(3,4) by (rule in_bounds_full_pos)
  then have posd: "list_all (\<lambda>d. 0 < d) (dims a)" and posN: "0 < N p" using s by simp_all
  have pd: "0 < prod_list (dims a)" using posd by (rule prod_list_pos)
  define n where "n = nat (N p)"
  define ls where "ls = map (\<lambda>i. rows h (flat_get h a i)) [0..<nd_size a]"
  have len_ls: "length ls = nd_size a" by (simp add: ls_def)
  have uni: "\<forall>l\<in>set ls. length l = n"
    using assms(1,2) posN by (auto simp add: ls_def n_def consistent_def plane_rows_def list_all_iff)
  have sz: "0 < nd_size a" using pd by (simp add: nd_size_def)
  then obtain l0 ls0 where ls0: "ls = l0 # ls0" using len_ls by (cases ls) auto
  have "length l0 = n" using uni ls0 by simp
  then have all: "list_all (\<lambda>m. length m = length l0) ls" using uni by (simp add: list_all_iff)
  have arr: "np_array_lists ls =
      \<lparr>dshape = [int (length ls), int (length l0)], ddata = map CBit (concat ls)\<rparr>"
    using all ls0 by (simp add: np_array_lists_def)
  have lc: "length (concat ls) = nd_size a * n" using length_concat_uniform [OF uni] len_ls by simp
  have "int (nd_size a * n) = prod_list (dims a) * N p"
    using pd posN by (simp add: nd_size_def n_def)
  then have tot: "int (length (ddata (np_array_lists ls))) = prod_list (shape p)"
    using arr lc s by simp
  have b: "bits p h = Inr \<lparr>dshape = shape p, ddata = map CBit (concat ls)\<rparr>"
    using l1 assms(2) np_reshape_same [OF pos tot assms(5,6)] arr by (simp add: bits_def ls_def)
  \<comment> \<open>the coordinate\<close>
  have cs: "c = butlast c @ [last c]" using ne by simp
  have "in_bounds (shape p) (butlast c @ [last c]) =
            (in_bounds (dims a) (butlast c) \<and> - N p \<le> last c \<and> last c < N p)"
    unfolding s using l by (rule in_bounds_snoc)
  then have ib: "in_bounds (dims a) (butlast c)" and j: "- N p \<le> last c" "last c < N p"
    using assms(3) ne by simp_all
  obtain k where k: "nd_resolve (dims a) (butlast c) = Inr (k, [])"
    using ib l nd_resolve_in [of "dims a" "butlast c"] by auto
  have kl: "k < nd_size a" using k l nd_resolve_full_less [of "dims a" "butlast c" k]
    by (simp add: nd_size_def)
  define jj where "jj = nat (if last c < 0 then last c + N p else last c)"
  have nj: "norm_index (N p) (last c) = Inr jj" unfolding jj_def using j by (rule norm_index_Inr)
  have jn: "jj < n" using j by (auto simp add: jj_def n_def)
  have g: "getitem p (Tup c) h = Inr (Obj (Bit (rows h (flat_get h a k) ! jj)))"
    using k nj by (simp add: getitem_full_consistent [OF assms(1,2,4)])
  have "nd_resolve (dims a @ [N p]) (butlast c) = Inr (k * nat (N p), [] @ [N p])"
    using k posN by (intro nd_resolve_extra_dim) simp_all
  then have "nd_resolve (dims a @ [N p]) (butlast c @ [last c]) =
      (case nd_resolve [N p] [last c] of Inl e \<Rightarrow> Inl e | Inr (k', rest') \<Rightarrow> Inr (k * nat (N p) + k', rest'))"
    by (intro nd_resolve_append) simp
  then have r: "nd_resolve (shape p) c = Inr (k * n + jj, [])"
    using nj cs s by (simp add: n_def)
  have "k * n + jj < nd_size a * n"
  proof -
    have "k * n + jj < k * n + n" using jn by simp
    also have "\<dots> = (k + 1) * n" by simp
    also have "\<dots> \<le> nd_size a * n" using kl by (intro mult_right_mono) auto
    finally show ?thesis .
  qed
  then have "map CBit (concat ls) ! (k * n + jj) = CBit (concat ls ! (k * n + jj))"
    using lc by simp
  also have "concat ls ! (k * n + jj) = ls ! k ! jj"
    using uni kl jn len_ls by (intro nth_concat_uniform) simp_all
  also have "ls ! k = rows h (flat_get h a k)" using kl by (simp add: ls_def)
  finally have "dense_getitem \<lparr>dshape = shape p, ddata = map CBit (concat ls)\<rparr> c =
      Inr (DCell (CBit (rows h (flat_get h a k) ! jj)))"
    using r assms(4) by (simp add: dense_getitem_def)
  then show ?thesis using b g by auto
qed

text \<open>The constructor builds consistent planes.\<close>

lemma Plane_init_consistent:
  assumes "sh \<noteq> []" and "list_all (\<lambda>d. 0 \<le> d) sh" and "Plane_init sh None h = Inr (p, h')"
  shows "consistent h' p"
proof -
  have last: "0 \<le> last sh" using assms(1,2) by (simp add: list_all_iff)
  have bl: "list_all (\<lambda>d. 0 \<le> d) (butlast sh)"
    using assms(2) by (auto simp add: list_all_iff dest: in_set_butlastD)
  show ?thesis
  proof (cases "length sh = 1")
    case True
    then obtain n where "sh = [n]" by (cases sh) auto
    then show ?thesis using assms(3) last
      by (auto simp add: Plane_init_one_dim consistent_def shaped_def plane_rows_def)
  next
    case False
    then have "butlast sh \<noteq> []" using assms(1) by (cases sh) auto
    then show ?thesis using assms(1) last Plane_init_nd_Inr(2,3) [OF False assms(3)]
      by (auto simp add: consistent_def shaped_def plane_rows_filled nd_size_def list_all_iff)
  qed
qed

subsection \<open>The example grid\<close>

lemma row_of_3_5: "row_of 3 5 = [True, False, True]"
  by code_simp

lemma ex_consistent: "consistent ex_heap ex_plane"
  by (simp add: consistent_def shaped_def ex_plane_def ex_heap_def plane_rows_filled nd_size_def
      list_all_iff)

lemmas getitem_eval = getitem_def getitem_tuple_def getitem_int_def nd_getitem_def
  bitarray_getitem_def norm_index_def obj_shape_def Plane_init_Some heap_reads

lemma ex_view_getitem: "getitem ex_plane (Tup [1]) ex_heap = Inr (View ex_view)"
  by (simp add: getitem_eval ex_plane_def ex_view_def)

lemma ex_view_randomize:
  "randomize ex_view (\<lambda>k. 5) ex_heap =
     Inr (ex_view, \<lambda>k. 5, filled \<lparr>off = 2, dims = [2]\<rparr> 0 2 (\<lambda>j. [True, False, True]) ex_heap)"
  by (simp add: randomize_nd [where a = "\<lparr>off = 2, dims = [2]\<rparr>"] ex_view_def nd_size_def row_of_3_5)

lemma ex_plane_randomize:
  "randomize ex_plane (\<lambda>k. 5) ex_heap =
     Inr (ex_plane, \<lambda>k. 5, filled \<lparr>off = 0, dims = [2, 2]\<rparr> 0 4 (\<lambda>j. [True, False, True]) ex_heap)"
  by (simp add: randomize_nd [where a = "\<lparr>off = 0, dims = [2, 2]\<rparr>"] ex_plane_def nd_size_def row_of_3_5)

lemmas slice_eval = getitem_Slc_def getitem_slice_def str_slice_def slice_indices_def
  slice_adjust_def slice_clip_def str_of_arr_def str_count_def str_blk_def wrap_plane_def Let_def
  getitem_heap_def

lemma str_filled_2:
  "cells (str_filled s 0 2 f h) c =
     (if c = str_flat s 1 then nrows h + 1 else if c = str_flat s 0 then nrows h else cells h c)"
  by (simp add: str_filled_def numeral_2_eq_2)

lemmas str_reads = str_filled_rows str_filled_counts str_filled_2 str_flat_def str_block_def
  str_blk_def str_count_def str_getitem_def str_get_def

lemma ex_slice_getitem:
  "getitem ex_plane (Slc (Some 1) None None) ex_heap = Inr (View ex_slice)"
  by (simp add: getitem_eval slice_eval ex_plane_def ex_slice_def)

lemma ex_row_getitem: "getitem ex_view (Scalar 0) ex_heap = Inr (View ex_row)"
  by (simp add: getitem_eval ex_view_def ex_row_def ex_heap_def heap0_def)

lemma ex_slice_randomize:
  "randomize ex_slice (\<lambda>k. 5) ex_heap =
     Inr (ex_slice, \<lambda>k. 5,
          str_filled \<lparr>base = 2, sdims = [1, 2], skip = 0, reversed = False\<rparr> 0 2
            (\<lambda>j. [True, False, True]) ex_heap)"
  by (simp add: randomize_str [where s = "\<lparr>base = 2, sdims = [1, 2], skip = 0, reversed = False\<rparr>"]
      ex_slice_def str_size_def str_count_def str_blk_def row_of_3_5)

lemma randomize_cases:
  assumes "shape q \<noteq> []" and "randomize q g h = Inr (q', g', h')"
  shows "(1 \<le> N q \<and> length (shape q) = 1 \<and> q' = q\<lparr>grid := Row (nrows h)\<rparr>
            \<and> h' = h\<lparr>rows := (rows h)(nrows h := row_of (N q) (int (g 0) mod (2 ^ nat (N q) - 1))),
                      nrows := Suc (nrows h)\<rparr>)
       \<or> (1 \<le> N q \<and> 1 < length (shape q) \<and> q' = q
            \<and> (\<exists>a. grid q = Arr a
                  \<and> h' = filled a 0 (nd_size a) (\<lambda>j. row_of (N q) (int (g j) mod (2 ^ nat (N q) - 1))) h))
       \<or> (N q \<le> 0 \<and> 1 < length (shape q) \<and> q' = q \<and> h' = h \<and> (\<exists>a. grid q = Arr a \<and> nd_size a = 0))
       \<or> (1 \<le> N q \<and> 1 < length (shape q) \<and> q' = q
            \<and> (\<exists>s. grid q = Str s
                  \<and> h' = str_filled s 0 (str_size s) (\<lambda>j. row_of (N q) (int (g j) mod (2 ^ nat (N q) - 1))) h))
       \<or> (N q \<le> 0 \<and> 1 < length (shape q) \<and> q' = q \<and> h' = h \<and> (\<exists>s. grid q = Str s \<and> str_size s = 0))"
proof (cases "1 \<le> N q")
  case True
  show ?thesis
  proof (cases "length (shape q) = 1")
    case l: True
    then show ?thesis using True assms by (auto simp add: randomize_one_dim)
  next
    case False
    then have l: "1 < length (shape q)" using assms(1) by (cases "shape q") auto
    show ?thesis
    proof (cases "grid q")
      case (Arr a)
      then show ?thesis using True l assms randomize_nd [of q a g h] by auto
    next
      case (Str s)
      then show ?thesis using True l assms randomize_str [of q s g h] by auto
    next
      case (Row r)
      then show ?thesis using assms l by (simp add: randomize_def)
    next
      case (Bit b)
      then show ?thesis using assms l by (simp add: randomize_def)
    qed
  qed
next
  case False
  then have n: "N q \<le> 0" by simp
  have l: "1 < length (shape q)"
    using assms randomize_nonpositive_width [OF assms(1) n, of g h]
    by (cases "shape q") (auto split: if_splits)
  show ?thesis
    using assms(2) n l randomize_nonpositive_width [OF assms(1) n, of g h]
    by (auto split: if_splits obj.splits)
qed

lemma pack_bytes_examples:
  "pack_bytes [False, False, False, False, False, False, False, False, False, False, False, False]
     = [0, 0]"
  "pack_bytes [True, False, True, False] = [160]"
  by code_simp+

section \<open>The claims of the specification\<close>

subsection \<open>Construction with caller-supplied storage\<close>

text \<open>
  C4 (as amended). Construction with caller-supplied storage never fails and checks
  nothing: the plane records the storage and the shape as given, its \<open>N\<close> is the last
  component of the shape (0 for the empty shape), and the store is left as it was. No
  comparison of the storage with the shape takes place, so nothing is truncated or padded
  and no error is raised.
\<close>

theorem Plane_init_supplied_storage:
  "Plane_init sh (Some g) h = Inr (\<lparr>grid = g, shape = sh, N = (if sh = [] then 0 else last sh)\<rparr>, h)"
  by (simp add: Plane_init_def)

text \<open>
  The claim as stated fails: the shape \<open>(2,4)\<close> with an array of three rows as storage is
  accepted.
\<close>

theorem Plane_init_accepts_mismatch:
  "Plane_init [2, 4] (Some (Arr \<lparr>off = 0, dims = [3]\<rparr>)) heap0
   = Inr (\<lparr>grid = Arr \<lparr>off = 0, dims = [3]\<rparr>, shape = [2, 4], N = 4\<rparr>, heap0)"
  by (simp add: Plane_init_def)

subsection \<open>Flattening\<close>

text \<open>
  C6. For a coordinate as long as the shape (and so with a last component), \<open>flatten\<close>
  returns the row-major linear index of the outer coordinate within an array of shape
  \<open>shape[:-1]\<close>, paired with the last component unchanged. It reads the shape only: the
  result does not depend on the storage, and no store is passed or returned. For shape
  \<open>(2,3,4)\<close>, \<open>flatten((1,2,0)) = (5,0)\<close>; for a one-dimensional grid,
  \<open>flatten((3,)) = (0,3)\<close>.
\<close>

theorem flatten_row_major:
  "length c = length (shape p) \<Longrightarrow> c \<noteq> [] \<Longrightarrow>
   flatten p c = Inr (row_major (butlast (shape p)) (butlast c), last c)
   \<and> flatten (p\<lparr>grid := g\<rparr>) c = flatten p c"
  using flatten_loop_down [of "length c - 1" "shape p" c 0 1]
  by (simp add: flatten_def butlast_conv_take)

theorem flatten_row_major_witness:
  "length [1, 2, 0 :: int] = length (shape \<lparr>grid = Row 0, shape = [2, 3, 4], N = 4\<rparr>)
   \<and> [1, 2, 0 :: int] \<noteq> []
   \<and> flatten \<lparr>grid = Row 0, shape = [2, 3, 4], N = 4\<rparr> [1, 2, 0] = Inr (5, 0)
   \<and> flatten \<lparr>grid = Row 0, shape = [8], N = 8\<rparr> [3] = Inr (0, 3)"
  using flatten_row_major [of "[1, 2, 0]" "\<lparr>grid = Row 0, shape = [2, 3, 4], N = 4\<rparr>" "Row 0"]
    flatten_row_major [of "[3]" "\<lparr>grid = Row 0, shape = [8], N = 8\<rparr>" "Row 0"]
  by simp

subsection \<open>Width of the rows\<close>

text \<open>
  C8. For a non-empty shape of non-negative dimensions (within the limits of numpy for
  the outer dimensions), construction with default storage succeeds: the storage is a
  row for a one-dimensional shape and otherwise an array of the dimensions \<open>shape[:-1]\<close>;
  it holds one newly made row object per cell, and each row consists of exactly
  \<open>N = shape[-1]\<close> zero bits. A call of \<open>randomize\<close> on a plane of non-empty shape that
  returns leaves the shape, \<open>N\<close> and the number of rows as they were (one row for a
  one-dimensional plane) and replaces each row by a newly made one; the \<open>j\<close>-th row
  has length exactly \<open>N\<close> and is the binary representation of the \<open>j\<close>-th drawn value with
  zero bits added on the left. For \<open>N \<ge> 1\<close> the call does return, on a
  one-dimensional plane and on a plane whose storage is an array (whole or sliced).
\<close>

theorem rows_have_width_N:
  "(sh \<noteq> [] \<and> list_all (\<lambda>d. 0 \<le> d) sh \<and> (length sh = 1 \<or> np_allocatable (butlast sh)) \<longrightarrow>
      (\<exists>p h'. Plane_init sh None h = Inr (p, h') \<and> shape p = sh \<and> N p = last sh
         \<and> (if length sh = 1 then \<exists>r. grid p = Row r
             else \<exists>a. grid p = Arr a \<and> dims a = butlast sh)
         \<and> plane_refs h' p = [nrows h..<nrows h + nat (prod_list (butlast sh))]
         \<and> plane_rows h' p =
             replicate (nat (prod_list (butlast sh))) (replicate (nat (last sh)) False)
         \<and> list_all (\<lambda>b. int (length b) = N p) (plane_rows h' p)))
   \<and> (shape q \<noteq> [] \<and> randomize q g hq = Inr (q', g', hq') \<longrightarrow>
        shape q' = shape q \<and> N q' = N q
        \<and> (if length (shape q) = 1 then \<exists>r. grid q' = Row r else q' = q)
        \<and> length (plane_rows hq' q') =
            (if length (shape q) = 1 then 1 else length (plane_rows hq q))
        \<and> plane_refs hq' q' = [nrows hq..<nrows hq + length (plane_rows hq' q')]
        \<and> (\<forall>j<length (plane_rows hq' q').
              int (length (plane_rows hq' q' ! j)) = N q
              \<and> (\<exists>d. natural_binary (nat (int (g j) mod (2 ^ nat (N q) - 1))) d
                    \<and> plane_rows hq' q' ! j = replicate (nat (N q) - length d) False @ d)))
   \<and> (shape q \<noteq> [] \<and> 1 \<le> N q
        \<and> (length (shape q) = 1 \<or> (\<exists>a. grid q = Arr a) \<or> (\<exists>s. grid q = Str s)) \<longrightarrow>
        (\<exists>q' g' hq'. randomize q g hq = Inr (q', g', hq')))"
proof (intro conjI)
  show "sh \<noteq> [] \<and> list_all (\<lambda>d. 0 \<le> d) sh \<and> (length sh = 1 \<or> np_allocatable (butlast sh)) \<longrightarrow>
      (\<exists>p h'. Plane_init sh None h = Inr (p, h') \<and> shape p = sh \<and> N p = last sh
         \<and> (if length sh = 1 then \<exists>r. grid p = Row r
             else \<exists>a. grid p = Arr a \<and> dims a = butlast sh)
         \<and> plane_refs h' p = [nrows h..<nrows h + nat (prod_list (butlast sh))]
         \<and> plane_rows h' p =
             replicate (nat (prod_list (butlast sh))) (replicate (nat (last sh)) False)
         \<and> list_all (\<lambda>b. int (length b) = N p) (plane_rows h' p))"
  proof
    assume a: "sh \<noteq> [] \<and> list_all (\<lambda>d. 0 \<le> d) sh \<and> (length sh = 1 \<or> np_allocatable (butlast sh))"
    then have last: "0 \<le> last sh" by (simp add: list_all_iff)
    show "\<exists>p h'. Plane_init sh None h = Inr (p, h') \<and> shape p = sh \<and> N p = last sh
         \<and> (if length sh = 1 then \<exists>r. grid p = Row r
             else \<exists>a. grid p = Arr a \<and> dims a = butlast sh)
         \<and> plane_refs h' p = [nrows h..<nrows h + nat (prod_list (butlast sh))]
         \<and> plane_rows h' p =
             replicate (nat (prod_list (butlast sh))) (replicate (nat (last sh)) False)
         \<and> list_all (\<lambda>b. int (length b) = N p) (plane_rows h' p)"
    proof (cases "length sh = 1")
      case True
      then obtain n where "sh = [n]" by (cases sh) auto
      then show ?thesis using last
        by (simp add: Plane_init_one_dim plane_rows_def plane_refs_def)
    next
      case False
      then have al: "np_allocatable (butlast sh)" using a by simp
      show ?thesis using a last False
        by (simp add: Plane_init_nd [OF False al] plane_rows_filled plane_refs_filled nd_size_def
            map_replicate_const list_all_iff)
    qed
  qed
next
  show "shape q \<noteq> [] \<and> randomize q g hq = Inr (q', g', hq') \<longrightarrow>
        shape q' = shape q \<and> N q' = N q
        \<and> (if length (shape q) = 1 then \<exists>r. grid q' = Row r else q' = q)
        \<and> length (plane_rows hq' q') =
            (if length (shape q) = 1 then 1 else length (plane_rows hq q))
        \<and> plane_refs hq' q' = [nrows hq..<nrows hq + length (plane_rows hq' q')]
        \<and> (\<forall>j<length (plane_rows hq' q').
              int (length (plane_rows hq' q' ! j)) = N q
              \<and> (\<exists>d. natural_binary (nat (int (g j) mod (2 ^ nat (N q) - 1))) d
                    \<and> plane_rows hq' q' ! j = replicate (nat (N q) - length d) False @ d))"
  proof
    assume a: "shape q \<noteq> [] \<and> randomize q g hq = Inr (q', g', hq')"
    have row: "int (length (row_of (N q) (int x mod (2 ^ nat (N q) - 1)))) = N q
        \<and> (\<exists>d. natural_binary (nat (int x mod (2 ^ nat (N q) - 1))) d
              \<and> row_of (N q) (int x mod (2 ^ nat (N q) - 1)) = replicate (nat (N q) - length d) False @ d)"
      if n: "1 \<le> N q" for x
    proof -
      have l: "int (length (row_of (N q) (int x mod (2 ^ nat (N q) - 1)))) = N q"
        using row_of_mod(1) [OF n] .
      have "0 \<le> int x mod (2 ^ nat (N q) - 1)" using max_u_pos [OF n] by simp
      from row_of_left_padded [OF this, of "N q"] obtain d where
        d: "natural_binary (nat (int x mod (2 ^ nat (N q) - 1))) d"
          "row_of (N q) (int x mod (2 ^ nat (N q) - 1)) =
            replicate (length (row_of (N q) (int x mod (2 ^ nat (N q) - 1))) - length d) False @ d"
        by blast
      have "length (row_of (N q) (int x mod (2 ^ nat (N q) - 1))) = nat (N q)" using l by linarith
      then have "row_of (N q) (int x mod (2 ^ nat (N q) - 1)) = replicate (nat (N q) - length d) False @ d"
        using d(2) by simp
      then show ?thesis using l d(1) by blast
    qed
    from randomize_cases [of q g hq q' g' hq'] a
    consider
      (one) "1 \<le> N q" "length (shape q) = 1" "q' = q\<lparr>grid := Row (nrows hq)\<rparr>"
         "hq' = hq\<lparr>rows := (rows hq)(nrows hq := row_of (N q) (int (g 0) mod (2 ^ nat (N q) - 1))),
                      nrows := Suc (nrows hq)\<rparr>"
    | (nd) a' where "1 \<le> N q" "1 < length (shape q)" "q' = q" "grid q = Arr a'"
         "hq' = filled a' 0 (nd_size a') (\<lambda>j. row_of (N q) (int (g j) mod (2 ^ nat (N q) - 1))) hq"
    | (zero) a' where "N q \<le> 0" "1 < length (shape q)" "q' = q" "hq' = hq" "grid q = Arr a'" "nd_size a' = 0"
    | (sliced) s' where "1 \<le> N q" "1 < length (shape q)" "q' = q" "grid q = Str s'"
         "hq' = str_filled s' 0 (str_size s') (\<lambda>j. row_of (N q) (int (g j) mod (2 ^ nat (N q) - 1))) hq"
    | (sliced_zero) s' where "N q \<le> 0" "1 < length (shape q)" "q' = q" "hq' = hq" "grid q = Str s'" "str_size s' = 0"
      by blast
    then show "shape q' = shape q \<and> N q' = N q
        \<and> (if length (shape q) = 1 then \<exists>r. grid q' = Row r else q' = q)
        \<and> length (plane_rows hq' q') =
            (if length (shape q) = 1 then 1 else length (plane_rows hq q))
        \<and> plane_refs hq' q' = [nrows hq..<nrows hq + length (plane_rows hq' q')]
        \<and> (\<forall>j<length (plane_rows hq' q').
              int (length (plane_rows hq' q' ! j)) = N q
              \<and> (\<exists>d. natural_binary (nat (int (g j) mod (2 ^ nat (N q) - 1))) d
                    \<and> plane_rows hq' q' ! j = replicate (nat (N q) - length d) False @ d))"
    proof cases
      case one
      then show ?thesis using row [OF one(1), of "g 0"]
        by (simp add: plane_rows_def plane_refs_def)
    next
      case nd
      have pr: "plane_rows hq' q' = map (\<lambda>j. row_of (N q) (int (g j) mod (2 ^ nat (N q) - 1))) [0..<nd_size a']"
        using nd by (simp add: plane_rows_filled)
      have rf: "plane_refs hq' q' = [nrows hq..<nrows hq + nd_size a']"
        using nd by (simp add: plane_refs_filled)
      have "length (plane_rows hq q) = nd_size a'" using nd by (simp add: plane_rows_def)
      then show ?thesis using nd(1-3) pr rf row [OF nd(1)] by simp
    next
      case zero
      then show ?thesis by (simp add: plane_rows_def plane_refs_def)
    next
      case sliced
      have pr: "plane_rows hq' q' = map (\<lambda>j. row_of (N q) (int (g j) mod (2 ^ nat (N q) - 1))) [0..<str_size s']"
        using sliced by (simp add: plane_rows_str_filled)
      have rf: "plane_refs hq' q' = [nrows hq..<nrows hq + str_size s']"
        using sliced by (simp add: plane_refs_str_filled)
      have "length (plane_rows hq q) = str_size s'" using sliced by (simp add: plane_rows_def)
      then show ?thesis using sliced(1-3) pr rf row [OF sliced(1)] by simp
    next
      case sliced_zero
      then show ?thesis by (simp add: plane_rows_def plane_refs_def)
    qed
  qed
next
  show "shape q \<noteq> [] \<and> 1 \<le> N q
        \<and> (length (shape q) = 1 \<or> (\<exists>a. grid q = Arr a) \<or> (\<exists>s. grid q = Str s)) \<longrightarrow>
        (\<exists>q' g' hq'. randomize q g hq = Inr (q', g', hq'))"
  proof
    assume a: "shape q \<noteq> [] \<and> 1 \<le> N q
        \<and> (length (shape q) = 1 \<or> (\<exists>a. grid q = Arr a) \<or> (\<exists>s. grid q = Str s))"
    show "\<exists>q' g' hq'. randomize q g hq = Inr (q', g', hq')"
    proof (cases "length (shape q) = 1")
      case True
      then show ?thesis using a by (simp add: randomize_one_dim)
    next
      case False
      then have "1 < length (shape q)" using a by (cases "shape q") auto
      then show ?thesis using a False by (auto simp add: randomize_nd randomize_str)
    qed
  qed
qed

theorem rows_have_width_N_witness:
  "([2, 2, 3 :: int] \<noteq> [] \<and> list_all (\<lambda>d. 0 \<le> d) [2, 2, 3 :: int]
      \<and> np_allocatable (butlast [2, 2, 3]))
   \<and> (\<exists>p h'. Plane_init [2, 2, 3] None heap0 = Inr (p, h') \<and> shape p = [2, 2, 3] \<and> N p = 3
         \<and> (\<exists>a. grid p = Arr a \<and> dims a = [2, 2])
         \<and> plane_refs h' p = [0..<4]
         \<and> plane_rows h' p = replicate 4 (replicate 3 False))
   \<and> shape ex_plane \<noteq> []
   \<and> randomize ex_plane (\<lambda>k. 5) ex_heap =
       Inr (ex_plane, \<lambda>k. 5, filled \<lparr>off = 0, dims = [2, 2]\<rparr> 0 4 (\<lambda>j. [True, False, True]) ex_heap)
   \<and> length (plane_rows (filled \<lparr>off = 0, dims = [2, 2]\<rparr> 0 4 (\<lambda>j. [True, False, True]) ex_heap)
        ex_plane) = length (plane_rows ex_heap ex_plane)
   \<and> plane_refs (filled \<lparr>off = 0, dims = [2, 2]\<rparr> 0 4 (\<lambda>j. [True, False, True]) ex_heap) ex_plane
       = [4..<8]
   \<and> (1::int) \<le> N ex_plane
   \<and> (\<exists>a. grid ex_plane = Arr a)
   \<and> (\<exists>q' g' hq'. randomize ex_plane (\<lambda>k. 5) ex_heap = Inr (q', g', hq'))"
proof -
  have al: "np_allocatable (butlast [2, 2, 3])" by (simp add: np_limits)
  have s: "shape ex_plane = [2, 2, 3]" "N ex_plane = 3" "grid ex_plane = Arr \<lparr>off = 0, dims = [2, 2]\<rparr>"
    by (simp_all add: ex_plane_def)
  have n: "nrows ex_heap = 4" by (simp add: ex_heap_def filled_counts heap0_def)
  have l: "length (plane_rows (filled \<lparr>off = 0, dims = [2, 2]\<rparr> 0 4 (\<lambda>j. [True, False, True]) ex_heap)
        ex_plane) = 4"
    by (simp add: plane_rows_def s nd_size_def)
  note t = rows_have_width_N [of "[2, 2, 3]" heap0 ex_plane "\<lambda>k. 5" ex_heap ex_plane "\<lambda>k. 5"
      "filled \<lparr>off = 0, dims = [2, 2]\<rparr> 0 4 (\<lambda>j. [True, False, True]) ex_heap"]
  have h0: "nrows heap0 = 0" by (simp add: heap0_def)
  show ?thesis using t al ex_plane_randomize
    by (simp add: s n l h0) blast
qed

subsection \<open>Range of the drawn values\<close>

text \<open>
  C9. For a plane of non-empty shape with \<open>N \<ge> 1\<close>, after \<open>randomize\<close> the \<open>j\<close>-th row of
  the plane is the \<open>N\<close>-bit pattern of the \<open>j\<close>-th drawn value, which \<^verbatim>\<open>randrange\<close> takes
  from the half-open range from 0 to \<open>2^N - 1\<close>: the number a row spells is below
  \<open>2^N - 1\<close>, and no row is the all-ones pattern. (How the values are distributed within the
  range is a matter of the library's generator, which is a parameter here.)
\<close>

theorem randomize_excludes_all_ones:
  "shape q \<noteq> [] \<Longrightarrow> 1 \<le> N q \<Longrightarrow> randomize q g h = Inr (q', g', h') \<Longrightarrow>
     plane_rows h' q' =
       map (\<lambda>j. row_of (N q) (int (g j) mod (2 ^ nat (N q) - 1))) [0..<length (plane_rows h' q')]
     \<and> list_all (\<lambda>b. int (bits_val b) < 2 ^ nat (N q) - 1 \<and> b \<noteq> replicate (nat (N q)) True)
         (plane_rows h' q')"
proof -
  assume a: "shape q \<noteq> []" "1 \<le> N q" "randomize q g h = Inr (q', g', h')"
  from randomize_rows [OF a]
  have r: "plane_rows h' q' =
        map (\<lambda>j. row_of (N q) (int (g j) mod (2 ^ nat (N q) - 1))) [0..<length (plane_rows h' q')]"
    by simp
  have "list_all (\<lambda>b. int (bits_val b) < 2 ^ nat (N q) - 1 \<and> b \<noteq> replicate (nat (N q)) True)
            (map (\<lambda>j. row_of (N q) (int (g j) mod (2 ^ nat (N q) - 1))) [0..<k])" for k
    using row_of_mod(3,4) [OF a(2)] by (simp add: list_all_iff)
  then have "list_all (\<lambda>b. int (bits_val b) < 2 ^ nat (N q) - 1 \<and> b \<noteq> replicate (nat (N q)) True)
            (plane_rows h' q')"
    by (subst r) simp
  then show ?thesis using r by simp
qed

theorem randomize_excludes_all_ones_witness:
  "shape \<lparr>grid = Row 0, shape = [3], N = 3\<rparr> \<noteq> []
   \<and> (1::int) \<le> N \<lparr>grid = Row 0, shape = [3], N = 3\<rparr>
   \<and> randomize \<lparr>grid = Row 0, shape = [3], N = 3\<rparr> (\<lambda>k. 5) heap0 =
       Inr (\<lparr>grid = Row 0, shape = [3], N = 3\<rparr>, \<lambda>k. 5,
            heap0\<lparr>rows := (rows heap0)(0 := [True, False, True]), nrows := 1\<rparr>)
   \<and> list_all (\<lambda>b. int (bits_val b) < 2 ^ 3 - 1 \<and> b \<noteq> replicate 3 True)
       (plane_rows (heap0\<lparr>rows := (rows heap0)(0 := [True, False, True]), nrows := 1\<rparr>)
          \<lparr>grid = Row 0, shape = [3], N = 3\<rparr>)"
  using randomize_excludes_all_ones [of "\<lparr>grid = Row 0, shape = [3], N = 3\<rparr>" "\<lambda>k. 5" heap0
      "\<lparr>grid = Row 0, shape = [3], N = 3\<rparr>" "\<lambda>k. 5"
      "heap0\<lparr>rows := (rows heap0)(0 := [True, False, True]), nrows := 1\<rparr>"]
    randomize_example
  by simp

subsection \<open>Randomizing a grid of width zero\<close>

text \<open>
  C10 (as amended). For a grid built by the constructor from a non-empty shape of
  non-negative dimensions with \<open>N = 0\<close>, \<open>randomize\<close> raises ValueError when the grid holds
  at least one row (a one-dimensional grid, or all outer dimensions positive, as for \<open>(0,)\<close>
  and \<open>(2,0)\<close>); when an outer dimension is 0 the loop draws nothing and the call returns
  with the plane and the store unchanged. A plane of empty shape is left unchanged.
\<close>

theorem randomize_zero_width:
  "(sh \<noteq> [] \<and> list_all (\<lambda>d. 0 \<le> d) sh \<and> last sh = 0 \<and> Plane_init sh None h = Inr (p, h') \<longrightarrow>
      randomize p g h' =
        (if length sh = 1 \<or> 0 < prod_list (butlast sh) then Inl ValueError else Inr (p, g, h')))
   \<and> (shape q = [] \<longrightarrow> randomize q g hq = Inr (q, g, hq))"
proof (intro conjI impI)
  assume a: "sh \<noteq> [] \<and> list_all (\<lambda>d. 0 \<le> d) sh \<and> last sh = 0 \<and> Plane_init sh None h = Inr (p, h')"
  have bl: "list_all (\<lambda>d. 0 \<le> d) (butlast sh)"
    using a by (auto simp add: list_all_iff dest: in_set_butlastD)
  show "randomize p g h' =
        (if length sh = 1 \<or> 0 < prod_list (butlast sh) then Inl ValueError else Inr (p, g, h'))"
  proof (cases "length sh = 1")
    case True
    then obtain n where "sh = [n]" by (cases sh) auto
    then show ?thesis using a randomize_nonpositive_width [of p g h']
      by (auto simp add: Plane_init_one_dim)
  next
    case False
    have "0 \<le> prod_list (butlast sh)" using bl by (simp add: list_all_iff prod_list_nonneg)
    moreover have "Plane_init sh None h = Inr (p, h')" using a by simp
    note Plane_init_nd_Inr(2) [OF False this]
    ultimately show ?thesis using a False randomize_nonpositive_width [of p g h']
      by (auto simp add: nd_size_def)
  qed
next
  assume "shape q = []"
  then show "randomize q g hq = Inr (q, g, hq)" by (simp add: randomize_def)
qed

theorem randomize_zero_width_witness:
  "([2, 0 :: int] \<noteq> [] \<and> list_all (\<lambda>d. 0 \<le> d) [2, 0 :: int] \<and> last [2, 0 :: int] = 0)
   \<and> Plane_init [2, 0] None heap0 =
       Inr (\<lparr>grid = Arr \<lparr>off = 0, dims = [2]\<rparr>, shape = [2, 0], N = 0\<rparr>,
            filled \<lparr>off = 0, dims = [2]\<rparr> 0 2 (\<lambda>j. []) (heap0\<lparr>ncells := 2\<rparr>))
   \<and> randomize \<lparr>grid = Arr \<lparr>off = 0, dims = [2]\<rparr>, shape = [2, 0], N = 0\<rparr> (\<lambda>k. k)
        (filled \<lparr>off = 0, dims = [2]\<rparr> 0 2 (\<lambda>j. []) (heap0\<lparr>ncells := 2\<rparr>)) = Inl ValueError
   \<and> shape \<lparr>grid = Arr \<lparr>off = 0, dims = []\<rparr>, shape = [], N = 0\<rparr> = []
   \<and> randomize \<lparr>grid = Arr \<lparr>off = 0, dims = []\<rparr>, shape = [], N = 0\<rparr> (\<lambda>k. k) heap0 =
       Inr (\<lparr>grid = Arr \<lparr>off = 0, dims = []\<rparr>, shape = [], N = 0\<rparr>, \<lambda>k. k, heap0)"
  using randomize_zero_width [of "[2, 0]" heap0
      "\<lparr>grid = Arr \<lparr>off = 0, dims = [2]\<rparr>, shape = [2, 0], N = 0\<rparr>"
      "filled \<lparr>off = 0, dims = [2]\<rparr> 0 2 (\<lambda>j. []) (heap0\<lparr>ncells := 2\<rparr>)" "\<lambda>k. k"
      "\<lparr>grid = Arr \<lparr>off = 0, dims = []\<rparr>, shape = [], N = 0\<rparr>" heap0]
    Plane_init_nd [of "[2, 0]" heap0]
  by (simp add: np_limits heap0_def numeral_2_eq_2)

text \<open>
  The claim as stated fails for the shape \<open>(0,0)\<close>: the shape is not empty, the width is 0,
  and \<open>randomize\<close> returns.
\<close>

theorem randomize_zero_width_no_rows:
  "(case Plane_init [0, 0] None heap0 of
      Inl e \<Rightarrow> Inl e
    | Inr (p, h) \<Rightarrow> map_sum id fst (randomize p (\<lambda>k. k) h))
   = Inr \<lparr>grid = Arr \<lparr>off = 0, dims = [0]\<rparr>, shape = [0, 0], N = 0\<rparr>"
  by (simp add: Plane_init_nd np_limits randomize_nonpositive_width nd_size_def heap0_def)

subsection \<open>Indexing with a full coordinate\<close>

text \<open>
  C1. The claim fails on a one-dimensional grid: there the storage is the row itself, and
  the tuple branch of \<^verbatim>\<open>__getitem__\<close> indexes it with the empty tuple \<^verbatim>\<open>index[:-1]\<close>, which a
  bitarray rejects. For the grid of shape \<open>(8,)\<close> the coordinate \<open>(3,)\<close> raises TypeError,
  while the scalar index 3 yields the bit.
\<close>

theorem getitem_one_dim_tuple_TypeError:
  "(case Plane_init [8] None heap0 of
      Inl e \<Rightarrow> Inl e
    | Inr (p, h) \<Rightarrow> Inr (shape p, getitem p (Tup [3]) h, getitem p (Scalar 3) h))
   = Inr ([8], Inl TypeError, Inr (Obj (Bit False)))"
  by (simp add: Plane_init_one_dim getitem_def getitem_tuple_def getitem_int_def
      bitarray_getitem_def norm_index_def heap0_def)

subsection \<open>Indexing with a partial coordinate\<close>

text \<open>
  C2. The claim fails for a tuple with one component less than the shape: numpy then
  returns the row object, which has no attribute \<^verbatim>\<open>shape\<close>, and the tuple branch does not
  catch the AttributeError as the non-tuple branch does. For the shape \<open>(3,3,4)\<close> the index
  \<open>(1,)\<close> yields a view of shape \<open>(3,4)\<close>; indexing that view with \<open>(2,)\<close> and indexing the
  grid with \<open>(1,2)\<close> both raise AttributeError, while the scalar index 2 on the view yields
  the view of shape \<open>(4,)\<close>.
\<close>

theorem getitem_row_tuple_AttributeError:
  "(case Plane_init [3, 3, 4] None heap0 of
      Inl e \<Rightarrow> Inl e
    | Inr (p, h) \<Rightarrow>
        (case getitem p (Tup [1]) h of
           Inr (View v) \<Rightarrow>
             Inr (shape v, getitem v (Tup [2]) h, getitem p (Tup [1, 2]) h, getitem v (Scalar 2) h)))
   = Inr ([3, 4], Inl AttributeError, Inl AttributeError,
          Inr (View \<lparr>grid = Row 5, shape = [4], N = 4\<rparr>))"
  by (simp add: Plane_init_nd np_limits getitem_def getitem_tuple_def getitem_int_def nd_getitem_def
      obj_shape_def norm_index_def heap0_def heap_reads Plane_init_Some)

subsection \<open>Views and their parents\<close>

text \<open>
  C3 (as amended). Let a plane have the storage its shape declares, and let indexing it
  with a tuple of integers, an integer or a slice yield a view. Indexing leaves the store
  as it is: nothing is copied. If the view has at least two dimensions, then in every store
  a full coordinate \<open>c\<close> within the bounds of the view, read through the view, gives what the
  corresponding coordinate read through the parent gives (the index followed by \<open>c\<close> for a
  tuple and an integer; for a slice the first component \<open>k\<close> of \<open>c\<close> becomes
  \<open>start + step * k\<close>): both address the same cell. In particular \<open>randomize\<close> through the
  view leaves the view as it is and is observed through the parent, and \<open>randomize\<close>
  through the parent is observed through the view. If the view has one dimension, it
  holds the row object of the parent's cell: in every store with the same cells, bit \<open>b\<close>
  read through the view is bit \<open>b\<close> of that row read through the parent.
\<close>

theorem view_shares_cells:
  assumes "shaped p" and "\<not> is_list i" and "getitem p i h = Inr (View v)"
  shows "getitem_heap p i h = Inr (View v, h)
       \<and> (2 \<le> length (shape v) \<and> length c = length (shape v) \<and> in_bounds (shape v) c \<longrightarrow>
            (\<forall>h'. getitem v (Tup c) h' = getitem p (Tup (parent_coord p i c)) h')
          \<and> (randomize v g h = Inr (v', g', hv) \<longrightarrow>
               v' = v \<and> getitem p (Tup (parent_coord p i c)) hv = getitem v' (Tup c) hv)
          \<and> (randomize p g h = Inr (p', g', hp) \<longrightarrow>
               p' = p \<and> getitem v (Tup c) hp = getitem p' (Tup (parent_coord p i c)) hp))
       \<and> (length (shape v) = 1 \<longrightarrow>
            (\<forall>h' b. cells h' = cells h \<longrightarrow>
               getitem v (Scalar b) h' = getitem p (Tup (parent_coord p i [b])) h'))"
proof (intro conjI)
  show "getitem_heap p i h = Inr (View v, h)"
  proof (cases i)
    case (Tup ix)
    then show ?thesis using assms(3) by (simp add: getitem_heap_def)
  next
    case (Scalar j)
    then show ?thesis using assms(3) by (simp add: getitem_heap_def)
  next
    case (Lst l)
    then show ?thesis using assms(2) by simp
  next
    case (Slc a b st)
    then show ?thesis using view_of_slice(1) [OF assms(1)] assms(3) by simp
  qed
next
  have lp: "2 \<le> length (shape p)"
    using assms(1)
  proof (cases rule: shaped_cases)
    case (row r)
    then show ?thesis using assms(2,3) row_has_no_view [of p r i h v] by simp
  qed simp
  show "2 \<le> length (shape v) \<and> length c = length (shape v) \<and> in_bounds (shape v) c \<longrightarrow>
            (\<forall>h'. getitem v (Tup c) h' = getitem p (Tup (parent_coord p i c)) h')
          \<and> (randomize v g h = Inr (v', g', hv) \<longrightarrow>
               v' = v \<and> getitem p (Tup (parent_coord p i c)) hv = getitem v' (Tup c) hv)
          \<and> (randomize p g h = Inr (p', g', hp) \<longrightarrow>
               p' = p \<and> getitem v (Tup c) hp = getitem p' (Tup (parent_coord p i c)) hp)"
  proof
    assume a: "2 \<le> length (shape v) \<and> length c = length (shape v) \<and> in_bounds (shape v) c"
    have r: "getitem v (Tup c) h' = getitem p (Tup (parent_coord p i c)) h'" for h'
    proof (cases i)
      case (Tup ix)
      then show ?thesis using view_of_tuple [OF assms(1), of ix h v c h'] assms(3) a
        by (simp add: parent_coord_def)
    next
      case (Scalar j)
      then show ?thesis using view_of_scalar(1) [OF assms(1), of j h v c h'] assms(3) a
        by (simp add: parent_coord_def)
    next
      case (Lst l)
      then show ?thesis using assms(2) by simp
    next
      case (Slc x y z)
      then show ?thesis using view_of_slice(3) [OF assms(1), of x y z h v c h'] assms(3) a
        by simp
    qed
    show "(\<forall>h'. getitem v (Tup c) h' = getitem p (Tup (parent_coord p i c)) h')
          \<and> (randomize v g h = Inr (v', g', hv) \<longrightarrow>
               v' = v \<and> getitem p (Tup (parent_coord p i c)) hv = getitem v' (Tup c) hv)
          \<and> (randomize p g h = Inr (p', g', hp) \<longrightarrow>
               p' = p \<and> getitem v (Tup c) hp = getitem p' (Tup (parent_coord p i c)) hp)"
      using r a randomize_array_self [of v g h v' g' hv] randomize_array_self [OF lp, of g h p' g' hp]
      by auto
  qed
next
  show "length (shape v) = 1 \<longrightarrow>
            (\<forall>h' b. cells h' = cells h \<longrightarrow>
               getitem v (Scalar b) h' = getitem p (Tup (parent_coord p i [b])) h')"
  proof (cases i)
    case (Tup ix)
    then show ?thesis using tuple_view_dims [OF assms(1), of ix h v] assms(3) by simp
  next
    case (Scalar j)
    then show ?thesis using view_of_scalar(2) [OF assms(1), of j h v] assms(3)
      by (simp add: parent_coord_def)
  next
    case (Lst l)
    then show ?thesis using assms(2) by simp
  next
    case (Slc x y z)
    then show ?thesis using view_of_slice(2) [OF assms(1), of x y z h v] assms(3) by simp
  qed
qed

theorem view_shares_cells_witness:
  "shaped ex_plane
   \<and> \<not> is_list (Slc (Some 1) None None)
   \<and> getitem ex_plane (Slc (Some 1) None None) ex_heap = Inr (View ex_slice)
   \<and> getitem_heap ex_plane (Slc (Some 1) None None) ex_heap = Inr (View ex_slice, ex_heap)
   \<and> 2 \<le> length (shape ex_slice)
   \<and> length [0, 0, 0 :: int] = length (shape ex_slice)
   \<and> in_bounds (shape ex_slice) [0, 0, 0]
   \<and> parent_coord ex_plane (Slc (Some 1) None None) [0, 0, 0] = [1, 0, 0]
   \<and> getitem ex_plane (Tup [1, 0, 0]) ex_heap = Inr (Obj (Bit False))
   \<and> randomize ex_slice (\<lambda>k. 5) ex_heap =
       Inr (ex_slice, \<lambda>k. 5,
            str_filled \<lparr>base = 2, sdims = [1, 2], skip = 0, reversed = False\<rparr> 0 2
              (\<lambda>j. [True, False, True]) ex_heap)
   \<and> getitem ex_plane (Tup [1, 0, 0])
        (str_filled \<lparr>base = 2, sdims = [1, 2], skip = 0, reversed = False\<rparr> 0 2
           (\<lambda>j. [True, False, True]) ex_heap) = Inr (Obj (Bit True))
   \<and> randomize ex_plane (\<lambda>k. 5) ex_heap =
       Inr (ex_plane, \<lambda>k. 5, filled \<lparr>off = 0, dims = [2, 2]\<rparr> 0 4 (\<lambda>j. [True, False, True]) ex_heap)
   \<and> getitem ex_slice (Tup [0, 0, 0])
        (filled \<lparr>off = 0, dims = [2, 2]\<rparr> 0 4 (\<lambda>j. [True, False, True]) ex_heap) = Inr (Obj (Bit True))
   \<and> getitem ex_plane (Tup [1]) ex_heap = Inr (View ex_view)
   \<and> \<not> is_list (Tup [1])
   \<and> 2 \<le> length (shape ex_view)
   \<and> length [0, 0 :: int] = length (shape ex_view)
   \<and> in_bounds (shape ex_view) [0, 0]
   \<and> parent_coord ex_plane (Tup [1]) [0, 0] = [1, 0, 0]
   \<and> randomize ex_view (\<lambda>k. 5) ex_heap =
       Inr (ex_view, \<lambda>k. 5, filled \<lparr>off = 2, dims = [2]\<rparr> 0 2 (\<lambda>j. [True, False, True]) ex_heap)
   \<and> getitem ex_plane (Tup [1, 0, 0])
        (filled \<lparr>off = 2, dims = [2]\<rparr> 0 2 (\<lambda>j. [True, False, True]) ex_heap) = Inr (Obj (Bit True))
   \<and> shaped ex_view
   \<and> \<not> is_list (Scalar 0)
   \<and> getitem ex_view (Scalar 0) ex_heap = Inr (View ex_row)
   \<and> length (shape ex_row) = 1
   \<and> cells (ex_heap\<lparr>rows := (rows ex_heap)(2 := [True, False, False])\<rparr>) = cells ex_heap
   \<and> parent_coord ex_view (Scalar 0) [0] = [0, 0]
   \<and> getitem ex_view (Tup [0, 0]) (ex_heap\<lparr>rows := (rows ex_heap)(2 := [True, False, False])\<rparr>)
       = Inr (Obj (Bit True))"
proof -
  have h1: "shaped ex_plane" by (simp add: shaped_def ex_plane_def)
  have h2: "\<not> is_list (Slc (Some 1) None None)" by simp
  have h3: "2 \<le> length (shape ex_slice)" "length [0, 0, 0 :: int] = length (shape ex_slice)"
    "in_bounds (shape ex_slice) [0, 0, 0]"
    by (simp_all add: ex_slice_def)
  have pc: "parent_coord ex_plane (Slc (Some 1) None None) [0, 0, 0] = [1, 0, 0]"
    by (simp add: parent_coord_def slice_eval ex_plane_def)
  note t = view_shares_cells [OF h1 h2 ex_slice_getitem, of "[0, 0, 0]" "\<lambda>k. 5" ex_slice "\<lambda>k. 5"
      "str_filled \<lparr>base = 2, sdims = [1, 2], skip = 0, reversed = False\<rparr> 0 2
         (\<lambda>j. [True, False, True]) ex_heap" ex_plane
      "filled \<lparr>off = 0, dims = [2, 2]\<rparr> 0 4 (\<lambda>j. [True, False, True]) ex_heap"]
  have gh: "getitem_heap ex_plane (Slc (Some 1) None None) ex_heap = Inr (View ex_slice, ex_heap)"
    using t by simp
  have before: "getitem ex_plane (Tup [1, 0, 0]) ex_heap = Inr (Obj (Bit False))"
    by (simp add: getitem_eval ex_plane_def ex_heap_def)
  have v: "getitem ex_slice (Tup [0, 0, 0])
        (str_filled \<lparr>base = 2, sdims = [1, 2], skip = 0, reversed = False\<rparr> 0 2
            (\<lambda>j. [True, False, True]) ex_heap) = Inr (Obj (Bit True))"
    by (simp add: getitem_eval str_reads ex_slice_def ex_heap_def heap0_def)
  have p: "getitem ex_plane (Tup [1, 0, 0])
        (filled \<lparr>off = 0, dims = [2, 2]\<rparr> 0 4 (\<lambda>j. [True, False, True]) ex_heap) = Inr (Obj (Bit True))"
    by (simp add: getitem_eval ex_plane_def ex_heap_def)
  from t h3 pc ex_slice_randomize v
  have pv: "getitem ex_plane (Tup [1, 0, 0])
        (str_filled \<lparr>base = 2, sdims = [1, 2], skip = 0, reversed = False\<rparr> 0 2
           (\<lambda>j. [True, False, True]) ex_heap) = Inr (Obj (Bit True))"
    by simp
  from t h3 pc ex_plane_randomize p
  have vp: "getitem ex_slice (Tup [0, 0, 0])
        (filled \<lparr>off = 0, dims = [2, 2]\<rparr> 0 4 (\<lambda>j. [True, False, True]) ex_heap) = Inr (Obj (Bit True))"
    by simp
  have k2: "\<not> is_list (Tup [1])" by simp
  have k3: "2 \<le> length (shape ex_view)" "length [0, 0 :: int] = length (shape ex_view)"
    "in_bounds (shape ex_view) [0, 0]"
    by (simp_all add: ex_view_def)
  have kc: "parent_coord ex_plane (Tup [1]) [0, 0] = [1, 0, 0]" by (simp add: parent_coord_def)
  note u = view_shares_cells [OF h1 k2 ex_view_getitem, of "[0, 0]" "\<lambda>k. 5" ex_view "\<lambda>k. 5"
      "filled \<lparr>off = 2, dims = [2]\<rparr> 0 2 (\<lambda>j. [True, False, True]) ex_heap" ex_plane
      "filled \<lparr>off = 0, dims = [2, 2]\<rparr> 0 4 (\<lambda>j. [True, False, True]) ex_heap"]
  have w: "getitem ex_view (Tup [0, 0])
        (filled \<lparr>off = 2, dims = [2]\<rparr> 0 2 (\<lambda>j. [True, False, True]) ex_heap) = Inr (Obj (Bit True))"
    by (simp add: getitem_eval ex_view_def ex_heap_def)
  from u k3 kc ex_view_randomize w
  have pw: "getitem ex_plane (Tup [1, 0, 0])
        (filled \<lparr>off = 2, dims = [2]\<rparr> 0 2 (\<lambda>j. [True, False, True]) ex_heap) = Inr (Obj (Bit True))"
    by simp
  have r1: "shaped ex_view" by (simp add: shaped_def ex_view_def)
  have r2: "\<not> is_list (Scalar 0)" by simp
  have r3: "length (shape ex_row) = 1" by (simp add: ex_row_def)
  have r4: "cells (ex_heap\<lparr>rows := (rows ex_heap)(2 := [True, False, False])\<rparr>) = cells ex_heap"
    by simp
  have rc: "parent_coord ex_view (Scalar 0) [0] = [0, 0]" by (simp add: parent_coord_def)
  have rv: "getitem ex_row (Scalar 0) (ex_heap\<lparr>rows := (rows ex_heap)(2 := [True, False, False])\<rparr>)
              = Inr (Obj (Bit True))"
    by (simp add: getitem_eval ex_row_def)
  from view_shares_cells [OF r1 r2 ex_row_getitem] r3 r4 rc rv
  have rp: "getitem ex_view (Tup [0, 0]) (ex_heap\<lparr>rows := (rows ex_heap)(2 := [True, False, False])\<rparr>)
       = Inr (Obj (Bit True))"
    by simp
  show ?thesis
    using h1 h2 ex_slice_getitem gh h3 pc before ex_slice_randomize pv ex_plane_randomize vp
      ex_view_getitem k2 k3 kc ex_view_randomize pw r1 r2 ex_row_getitem r3 r4 rc rp
    by simp
qed

text \<open>
  The claim as stated fails in two ways. A one-dimensional view holds a reference to the
  row, and \<open>randomize\<close> binds the view's \<^verbatim>\<open>grid\<close> to a new row instead of assigning the parent's
  cell: after \<open>randomize\<close> on the view \<open>p[0]\<close> of a grid of shape \<open>(2,4)\<close> the view reads a
  set bit where the parent still reads zero. And indexing with a list copies the cells
  into a new array: after \<open>randomize\<close> on the view \<open>p[[1]]\<close> of a grid of shape \<open>(2,2,3)\<close> the
  view reads a set bit at \<open>(0,0,0)\<close> where the parent still reads zero at \<open>(1,0,0)\<close>.
\<close>

theorem randomize_through_view_not_shared:
  "(case Plane_init [2, 4] None heap0 of
      Inl e \<Rightarrow> Inl e
    | Inr (p, h) \<Rightarrow>
        (case getitem p (Scalar 0) h of
           Inr (View v) \<Rightarrow>
             (case randomize v (\<lambda>k. 5) h of
                Inl e \<Rightarrow> Inl e
              | Inr (v', g', h') \<Rightarrow>
                  Inr (shape v', getitem v' (Scalar 1) h', getitem p (Tup [0, 1]) h'))))
   = Inr ([4], Inr (Obj (Bit True)), Inr (Obj (Bit False)))
   \<and> (case Plane_init [2, 2, 3] None heap0 of
      Inl e \<Rightarrow> Inl e
    | Inr (p, h) \<Rightarrow>
        (case getitem_heap p (Lst [1]) h of
           Inr (View v, h1) \<Rightarrow>
             (case randomize v (\<lambda>k. 5) h1 of
                Inl e \<Rightarrow> Inl e
              | Inr (v', g', h2) \<Rightarrow>
                  Inr (shape v', getitem v' (Tup [0, 0, 0]) h2, getitem p (Tup [1, 0, 0]) h2))))
   = Inr ([1, 2, 3], Inr (Obj (Bit True)), Inr (Obj (Bit False)))"
proof
  show "(case Plane_init [2, 4] None heap0 of
      Inl e \<Rightarrow> Inl e
    | Inr (p, h) \<Rightarrow>
        (case getitem p (Scalar 0) h of
           Inr (View v) \<Rightarrow>
             (case randomize v (\<lambda>k. 5) h of
                Inl e \<Rightarrow> Inl e
              | Inr (v', g', h') \<Rightarrow>
                  Inr (shape v', getitem v' (Scalar 1) h', getitem p (Tup [0, 1]) h'))))
   = Inr ([4], Inr (Obj (Bit True)), Inr (Obj (Bit False)))"
    by code_simp
  show "(case Plane_init [2, 2, 3] None heap0 of
      Inl e \<Rightarrow> Inl e
    | Inr (p, h) \<Rightarrow>
        (case getitem_heap p (Lst [1]) h of
           Inr (View v, h1) \<Rightarrow>
             (case randomize v (\<lambda>k. 5) h1 of
                Inl e \<Rightarrow> Inl e
              | Inr (v', g', h2) \<Rightarrow>
                  Inr (shape v', getitem v' (Tup [0, 0, 0]) h2, getitem p (Tup [1, 0, 0]) h2))))
   = Inr ([1, 2, 3], Inr (Obj (Bit True)), Inr (Obj (Bit False)))"
    by (simp add: Plane_init_nd np_limits getitem_heap_def getitem_Lst_def getitem_list_def
        str_take_def str_of_arr_def str_blk_def str_block_def wrap_plane_def
        randomize_nd [where a = "\<lparr>off = 4, dims = [1, 2]\<rparr>"] nd_size_def row_of_3_5
        getitem_eval heap0_def)
qed

subsection \<open>Coordinates out of bounds\<close>

text \<open>
  C5 (as amended). For a plane whose storage is an array consistent with its shape:
  indexing with a tuple that has more components than the shape, or that has a component
  \<open>i\<close> outside \<open>-d \<le> i < d\<close> for its dimension \<open>d\<close> (the bit width for the last component of
  a full coordinate), raises IndexError; a full coordinate within these bounds yields a
  bit, the same bit as the coordinate with each negative component \<open>i\<close> replaced by
  \<open>d + i\<close>; and \<open>flatten\<close> checks no bounds: for every coordinate as long as the shape it
  returns its pair.
\<close>

theorem index_bounds:
  "consistent h p \<Longrightarrow> grid p = Arr a \<Longrightarrow>
     (\<not> in_bounds (shape p) ix \<longrightarrow> getitem p (Tup ix) h = Inl IndexError)
   \<and> (in_bounds (shape p) ix \<and> length ix = length (shape p) \<longrightarrow>
        (\<exists>b. getitem p (Tup ix) h = Inr (Obj (Bit b))
            \<and> getitem p (Tup (wrap_index (shape p) ix)) h = Inr (Obj (Bit b))))
   \<and> (length c = length (shape p) \<longrightarrow>
        flatten p c = Inr (row_major (butlast (shape p)) (butlast c), last c))"
proof -
  assume c: "consistent h p" and a: "grid p = Arr a"
  have "shape p = dims a @ [N p]" using c a shaped_Arr by (simp add: consistent_def)
  then have "flatten p c = Inr (row_major (butlast (shape p)) (butlast c), last c)"
    if "length c = length (shape p)"
    using that flatten_loop_down [of "length c - 1" "shape p" c 0 1]
    by (auto simp add: flatten_def butlast_conv_take)
  then show ?thesis
    using getitem_out_of_bounds [OF c a, of ix] getitem_in_bounds [OF c a, of ix] by blast
qed

theorem index_bounds_witness:
  "consistent ex_heap ex_plane
   \<and> grid ex_plane = Arr \<lparr>off = 0, dims = [2, 2]\<rparr>
   \<and> \<not> in_bounds (shape ex_plane) [2, 0, 0]
   \<and> getitem ex_plane (Tup [2, 0, 0]) ex_heap = Inl IndexError
   \<and> \<not> in_bounds (shape ex_plane) [0, 0, 0, 0]
   \<and> getitem ex_plane (Tup [0, 0, 0, 0]) ex_heap = Inl IndexError
   \<and> in_bounds (shape ex_plane) [- 1, 0, - 3]
   \<and> length [- 1, 0, - 3 :: int] = length (shape ex_plane)
   \<and> (\<exists>b. getitem ex_plane (Tup [- 1, 0, - 3]) ex_heap = Inr (Obj (Bit b))
         \<and> getitem ex_plane (Tup [1, 0, 0]) ex_heap = Inr (Obj (Bit b)))
   \<and> length [5, 7, 9 :: int] = length (shape ex_plane)
   \<and> flatten ex_plane [5, 7, 9] = Inr (17, 9)"
proof -
  have g: "grid ex_plane = Arr \<lparr>off = 0, dims = [2, 2]\<rparr>" by (simp add: ex_plane_def)
  have s: "shape ex_plane = [2, 2, 3]" by (simp add: ex_plane_def)
  show ?thesis
    using index_bounds [OF ex_consistent g, of "[2, 0, 0]" "[5, 7, 9]"]
      index_bounds [OF ex_consistent g, of "[0, 0, 0, 0]" "[5, 7, 9]"]
      index_bounds [OF ex_consistent g, of "[- 1, 0, - 3]" "[5, 7, 9]"]
      ex_consistent
    by (simp add: s g)
qed

text \<open>
  The claim as stated fails: on a grid of shape \<open>(2,2,4)\<close> the coordinate \<open>(-1,0,-4)\<close>
  yields a bit, and \<open>flatten\<close> returns a pair for \<open>(2,0,0)\<close> and \<open>(0,0,4)\<close>, which indexing
  rejects.
\<close>

theorem negative_index_wraps_flatten_unchecked:
  "(case Plane_init [2, 2, 4] None heap0 of
      Inl e \<Rightarrow> Inl e
    | Inr (p, h) \<Rightarrow>
        Inr (getitem p (Tup [- 1, 0, - 4]) h, flatten p [2, 0, 0], flatten p [0, 0, 4],
             getitem p (Tup [2, 0, 0]) h, getitem p (Tup [0, 0, 4]) h))
   = Inr (Inr (Obj (Bit False)), Inr (4, 0), Inr (0, 4), Inl IndexError, Inl IndexError)"
  by (simp add: Plane_init_nd np_limits getitem_eval heap0_def flatten_def eval_nat_numeral)

subsection \<open>Dense materialization\<close>

text \<open>
  C7. The claim fails on a one-dimensional grid, on both sides of its equation. \<open>bits\<close>
  returns \<^verbatim>\<open>np.array(self.grid)\<close>, which reads the buffer of the bitarray: for the grid of
  shape \<open>(12,)\<close> the result has shape \<open>(2,)\<close> and holds bytes, and for the row \<open>1010\<close> it is
  the single byte 160, so that the element at \<open>(2,)\<close> does not exist; and indexing the
  grid with the coordinate \<open>(2,)\<close> raises TypeError, while the scalar index 2 yields the
  bit.
\<close>

theorem bits_one_dim_packed_bytes:
  "(case Plane_init [12] None heap0 of
      Inl e \<Rightarrow> Inl e
    | Inr (p, h) \<Rightarrow>
        (case bits p h of
           Inl e \<Rightarrow> Inl e
         | Inr m \<Rightarrow>
             Inr (shape p, dshape m, ddata m, dense_getitem m [2], getitem p (Tup [2]) h,
                  getitem p (Scalar 2) h)))
   = Inr ([12], [2], [CByte 0, CByte 0], Inl IndexError, Inl TypeError, Inr (Obj (Bit False)))
   \<and> (case Plane_init [4] (Some (Row 0))
            (heap0\<lparr>rows := (rows heap0)(0 := [True, False, True, False]), nrows := 1\<rparr>) of
      Inl e \<Rightarrow> Inl e
    | Inr (p, h) \<Rightarrow>
        (case bits p h of
           Inl e \<Rightarrow> Inl e
         | Inr m \<Rightarrow>
             Inr (shape p, dshape m, ddata m, dense_getitem m [2], getitem p (Tup [2]) h,
                  getitem p (Scalar 2) h)))
   = Inr ([4], [1], [CByte 160], Inl IndexError, Inl TypeError, Inr (Obj (Bit True)))"
  by (simp add: Plane_init_one_dim Plane_init_Some getitem_eval bits_def np_array_obj_def
      dense_getitem_def heap0_def pack_bytes_examples eval_nat_numeral)

end
